theory Spec2Isabelle
  imports
    Main
    "HOL-Library.Word"
    "HOL-Library.Signed_Division"
    "HOL-Library.Monad_Syntax"
begin

unbundle bit_operations_syntax

section \<open>Memory of the Cortex-M address space\<close>

text \<open>
  The boot code of \<^verbatim>\<open>src/generic/armcm_boot.c\<close> runs on a 32-bit ARM Cortex-M core:
  addresses, \<^verbatim>\<open>uint32_t\<close> and \<^verbatim>\<open>size_t\<close> are 32-bit words, memory is byte addressed and
  little endian. Flash and RAM are one address space, a function from addresses to
  bytes. Address arithmetic wraps around at \<open>2 ^ 32\<close>.
\<close>

type_synonym u8 = "8 word"
type_synonym u32 = "32 word"
type_synonym mem = "u32 \<Rightarrow> u8"

text \<open>Byte \<open>k\<close> (0 is the least significant) of a 32-bit value.\<close>

definition byte_of :: "u32 \<Rightarrow> nat \<Rightarrow> u8" where
  "byte_of v k = ucast (drop_bit (8 * k) v)"

text \<open>A 32-bit store \<^verbatim>\<open>*(volatile uint32_t *)p = v\<close>: four bytes, least significant first.\<close>

definition store32 :: "mem \<Rightarrow> u32 \<Rightarrow> u32 \<Rightarrow> mem" where
  "store32 m p v =
     m(p := byte_of v 0, p + 1 := byte_of v 1, p + 2 := byte_of v 2, p + 3 := byte_of v 3)"

text \<open>A 32-bit load \<^verbatim>\<open>*(const uint32_t *)p\<close>.\<close>

definition load32 :: "mem \<Rightarrow> u32 \<Rightarrow> u32" where
  "load32 m p =
     ucast (m p) OR push_bit 8 (ucast (m (p + 1)))
       OR push_bit 16 (ucast (m (p + 2))) OR push_bit 24 (ucast (m (p + 3)))"

text \<open>
  The byte range of length \<open>n\<close> starting at \<open>base\<close>: address \<open>a\<close> lies in it when its
  offset from \<open>base\<close> is below \<open>n\<close>.
\<close>

definition in_range :: "u32 \<Rightarrow> u32 \<Rightarrow> u32 \<Rightarrow> bool" where
  "in_range base n a \<longleftrightarrow> unat (a - base) < unat n"

text \<open>
  Two ranges of the same length \<open>n\<close> starting at \<open>d\<close> and \<open>s\<close> share no address: each
  start is at least \<open>n\<close> bytes away from the other, in both directions around the
  address space.
\<close>

definition regions_disjoint :: "u32 \<Rightarrow> u32 \<Rightarrow> u32 \<Rightarrow> bool" where
  "regions_disjoint d s n \<longleftrightarrow> unat n \<le> unat (s - d) \<and> unat n \<le> unat (d - s)"

definition word_aligned :: "u32 \<Rightarrow> bool" where
  "word_aligned p \<longleftrightarrow> p AND 3 = 0"

section \<open>Primitive copy and fill\<close>

text \<open>
  \<^verbatim>\<open>
  static void __always_inline
  boot_memset(void *s, int c, size_t n)
  {
      volatile uint32_t *p = s;
      while (n) {
          *p++ = c;
          n -= sizeof(*p);
      }
  }
  \<close>
  The loop state is the memory, the pointer \<open>p\<close> and the counter \<open>n\<close>. The fill value
  \<open>c\<close> is the 32-bit pattern of the \<^verbatim>\<open>int\<close> argument, which the assignment converts to
  \<^verbatim>\<open>uint32_t\<close>. The loop may run forever, so it lives in the option monad: \<open>None\<close> is
  "does not return".
\<close>

type_synonym memset_state = "mem \<times> u32 \<times> u32"

definition boot_memset_cond :: "memset_state \<Rightarrow> bool" where
  "boot_memset_cond = (\<lambda>(m, p, n). n \<noteq> 0)"

definition boot_memset_body :: "u32 \<Rightarrow> memset_state \<Rightarrow> memset_state" where
  "boot_memset_body c = (\<lambda>(m, p, n). (store32 m p c, p + 4, n - 4))"

partial_function (option) boot_memset_loop :: "u32 \<Rightarrow> memset_state \<Rightarrow> memset_state option" where
  "boot_memset_loop c st =
     (if boot_memset_cond st then boot_memset_loop c (boot_memset_body c st) else Some st)"

declare boot_memset_loop.simps [code]

definition boot_memset :: "mem \<Rightarrow> u32 \<Rightarrow> u32 \<Rightarrow> u32 \<Rightarrow> mem option" where
  "boot_memset m s c n = map_option fst (boot_memset_loop c (m, s, n))"

text \<open>
  \<^verbatim>\<open>
  static void __always_inline
  boot_memcpy(void *dest, const void *src, size_t n)
  {
      const uint32_t *s = src;
      volatile uint32_t *d = dest;
      while (n) {
          *d++ = *s++;
          n -= sizeof(*d);
      }
  }
  \<close>
  The loop state is the memory, the pointers \<open>d\<close> and \<open>s\<close> and the counter \<open>n\<close>.
\<close>

type_synonym memcpy_state = "mem \<times> u32 \<times> u32 \<times> u32"

definition boot_memcpy_cond :: "memcpy_state \<Rightarrow> bool" where
  "boot_memcpy_cond = (\<lambda>(m, d, s, n). n \<noteq> 0)"

definition boot_memcpy_body :: "memcpy_state \<Rightarrow> memcpy_state" where
  "boot_memcpy_body = (\<lambda>(m, d, s, n). (store32 m d (load32 m s), d + 4, s + 4, n - 4))"

partial_function (option) boot_memcpy_loop :: "memcpy_state \<Rightarrow> memcpy_state option" where
  "boot_memcpy_loop st =
     (if boot_memcpy_cond st then boot_memcpy_loop (boot_memcpy_body st) else Some st)"

declare boot_memcpy_loop.simps [code]

definition boot_memcpy :: "mem \<Rightarrow> u32 \<Rightarrow> u32 \<Rightarrow> u32 \<Rightarrow> mem option" where
  "boot_memcpy m dest src n = map_option fst (boot_memcpy_loop (m, dest, src, n))"

text \<open>
  The byte-wise fill of the C library's \<^verbatim>\<open>memset\<close>, for comparison with
  \<open>boot_memset\<close>: every byte of the range becomes \<^verbatim>\<open>(unsigned char)c\<close>.
\<close>

definition memset_bytes :: "mem \<Rightarrow> u32 \<Rightarrow> u32 \<Rightarrow> u32 \<Rightarrow> mem" where
  "memset_bytes m s c n = (\<lambda>a. if in_range s n a then ucast c else m a)"

definition all_bytes_equal :: "u32 \<Rightarrow> bool" where
  "all_bytes_equal c \<longleftrightarrow>
     byte_of c 1 = byte_of c 0 \<and> byte_of c 2 = byte_of c 0 \<and> byte_of c 3 = byte_of c 0"

text \<open>
  \<^verbatim>\<open>__builtin_memcpy\<close> is the compiler's \<^verbatim>\<open>memcpy\<close>, not code of this file: the model is
  its C library contract for objects that do not overlap, every destination byte
  becoming the source byte at the same offset.
\<close>

definition builtin_memcpy :: "mem \<Rightarrow> u32 \<Rightarrow> u32 \<Rightarrow> u32 \<Rightarrow> mem" where
  "builtin_memcpy m dest src n = (\<lambda>a. if in_range dest n a then m (src + (a - dest)) else m a)"

section \<open>Linker symbols and board constants\<close>

text \<open>
  The addresses of the symbols created by the linker script (\<^verbatim>\<open>&_data_start\<close> and so
  on); the three vector table symbols exist only with
  \<^verbatim>\<open>CONFIG_ARMCM_RAM_VECTORTABLE\<close>.
\<close>

record layout =
  data_start :: u32
  data_end :: u32
  data_flash :: u32
  bss_start :: u32
  bss_end :: u32
  stack_start :: u32
  stack_end :: u32
  text_vectortable_start :: u32
  text_vectortable_end :: u32
  ram_vectortable_start :: u32

text \<open>
  The difference of two \<^verbatim>\<open>uint32_t *\<close> pointers: the signed byte distance divided by
  the element size 4, with C's truncating division.
\<close>

definition ptr_diff :: "u32 \<Rightarrow> u32 \<Rightarrow> u32" where
  "ptr_diff e s = word_of_int (sint (e - s) sdiv 4)"

definition valid_region :: "u32 \<Rightarrow> u32 \<Rightarrow> bool" where
  "valid_region start end_addr \<longleftrightarrow>
     word_aligned start \<and> word_aligned end_addr \<and> start \<le> end_addr"

definition valid_layout :: "layout \<Rightarrow> bool" where
  "valid_layout L \<longleftrightarrow>
     valid_region (data_start L) (data_end L) \<and> word_aligned (data_flash L) \<and>
     valid_region (bss_start L) (bss_end L) \<and>
     valid_region (stack_start L) (stack_end L) \<and>
     bss_end L \<le> stack_start L"

text \<open>
  The build configuration and the constants of the board support headers
  (\<^verbatim>\<open>autoconf.h\<close>, \<^verbatim>\<open>board/internal.h\<close>, CMSIS), which are not part of this file: the
  array sizes of the register blocks and the bit masks are parameters.
  \<open>NVIC_IP_size\<close> is \<^verbatim>\<open>ARRAY_SIZE(NVIC->IP)\<close> (of \<^verbatim>\<open>NVIC->IPR\<close> on a Cortex-M33),
  \<open>SCB_SHP_size\<close> is \<^verbatim>\<open>ARRAY_SIZE(SCB->SHP)\<close> (of \<^verbatim>\<open>SCB->SHPR\<close> on a Cortex-M7 or M33).
\<close>

record board =
  CONFIG_ARMCM_RAM_VECTORTABLE :: bool
  CORTEX_M :: nat
  NVIC_ICER_size :: nat
  NVIC_IP_size :: nat
  SCB_SHP_size :: nat
  SysTick_CTRL_CLKSOURCE_Msk :: u32
  SysTick_CTRL_TICKINT_Msk :: u32
  SysTick_CTRL_ENABLE_Msk :: u32
  SCB_ICSR_PENDSVCLR_Msk :: u32
  SCB_ICSR_PENDSTCLR_Msk :: u32
  RCC_BDCR_BDRST :: u32
  SYSCFG_CFGR1_MEM_MODE_0 :: u32
  SYSCFG_CFGR1_MEM_MODE_1 :: u32

section \<open>Machine state\<close>

text \<open>
  The memory-mapped registers the boot code touches are kept apart from ordinary
  memory. A register holds the value last written to it (or its value at entry); every
  register write, barrier and core instruction of the code is also appended to a trace,
  in program order.
\<close>

datatype reg =
    NVIC_ICER nat
  | NVIC_ICPR nat
  | NVIC_IP nat
  | NVIC_IPR nat
  | SysTick_CTRL
  | SCB_ICSR
  | SCB_SHP nat
  | SCB_SHPR nat
  | IWDG_KR
  | RCC_BDCR
  | SYSCFG_CFGR1

datatype event =
    RegWrite reg u32
  | DSB
  | ISB
  | CPSID_I
  | CPSID_F
  | CPSIE_I
  | CPSIE_F
  | MovSP u32
  | BranchStageTwo
  | Barrier

record mach =
  mem :: mem
  regs :: "reg \<Rightarrow> u32"
  sp :: u32
  primask :: bool
  faultmask :: bool
  trace :: "event list"

definition emit :: "event \<Rightarrow> mach \<Rightarrow> mach" where
  "emit e s = s\<lparr>trace := trace s @ [e]\<rparr>"

definition reg_read :: "reg \<Rightarrow> mach \<Rightarrow> u32" where
  "reg_read r s = regs s r"

definition reg_write :: "reg \<Rightarrow> u32 \<Rightarrow> mach \<Rightarrow> mach" where
  "reg_write r v s = emit (RegWrite r v) (s\<lparr>regs := (regs s)(r := v)\<rparr>)"

text \<open>\<^verbatim>\<open>__DSB()\<close>, \<^verbatim>\<open>__ISB()\<close> and the compiler barrier \<^verbatim>\<open>barrier()\<close>.\<close>

definition dsb :: "mach \<Rightarrow> mach" where
  "dsb s = emit DSB s"

definition isb :: "mach \<Rightarrow> mach" where
  "isb s = emit ISB s"

definition barrier :: "mach \<Rightarrow> mach" where
  "barrier s = emit Barrier s"

text \<open>
  \<^verbatim>\<open>cpsid i\<close> (\<^verbatim>\<open>__disable_irq()\<close>), \<^verbatim>\<open>cpsie i\<close> (\<^verbatim>\<open>__enable_irq()\<close>), \<^verbatim>\<open>cpsid f\<close> and
  \<^verbatim>\<open>cpsie f\<close> set and clear the two core interrupt masks.
\<close>

definition cpsid_i :: "mach \<Rightarrow> mach" where
  "cpsid_i s = emit CPSID_I (s\<lparr>primask := True\<rparr>)"

definition cpsie_i :: "mach \<Rightarrow> mach" where
  "cpsie_i s = emit CPSIE_I (s\<lparr>primask := False\<rparr>)"

definition cpsid_f :: "mach \<Rightarrow> mach" where
  "cpsid_f s = emit CPSID_F (s\<lparr>faultmask := True\<rparr>)"

definition cpsie_f :: "mach \<Rightarrow> mach" where
  "cpsie_f s = emit CPSIE_F (s\<lparr>faultmask := False\<rparr>)"

text \<open>\<^verbatim>\<open>mov sp, r\<close>.\<close>

definition mov_sp :: "u32 \<Rightarrow> mach \<Rightarrow> mach" where
  "mov_sp v s = emit (MovSP v) (s\<lparr>sp := v\<rparr>)"

text \<open>An empty infinite loop \<^verbatim>\<open>for (;;) ;\<close>.\<close>

partial_function (option) halt_forever :: "mach \<Rightarrow> mach option" where
  "halt_forever s = halt_forever s"

section \<open>Stage two\<close>

text \<open>
  \<^verbatim>\<open>
  for (i = 0; i < ARRAY_SIZE(NVIC->ICER); i++) {
      NVIC->ICER[i] = 0xFFFFFFFF;
      __DSB();
      NVIC->ICPR[i] = 0xFFFFFFFF;
  }
  \<close>
\<close>

function nvic_clear_loop :: "board \<Rightarrow> nat \<Rightarrow> mach \<Rightarrow> mach" where
  "nvic_clear_loop b i s =
     (if i < NVIC_ICER_size b
      then nvic_clear_loop b (i + 1)
             (reg_write (NVIC_ICPR i) 0xFFFFFFFF (dsb (reg_write (NVIC_ICER i) 0xFFFFFFFF s)))
      else s)"
  by pat_completeness auto
termination
  by (relation "measure (\<lambda>(b, i, s). NVIC_ICER_size b - i)") auto

declare nvic_clear_loop.simps [simp del]

text \<open>
  The loops \<^verbatim>\<open>for (i = 0; i < ARRAY_SIZE(X); i++) X[i] = 0;\<close> over the priority
  registers, \<open>X\<close> being \<^verbatim>\<open>NVIC->IP\<close>, \<^verbatim>\<open>NVIC->IPR\<close>, \<^verbatim>\<open>SCB->SHP\<close> or \<^verbatim>\<open>SCB->SHPR\<close>.
\<close>

function reg_zero_loop :: "(nat \<Rightarrow> reg) \<Rightarrow> nat \<Rightarrow> nat \<Rightarrow> mach \<Rightarrow> mach" where
  "reg_zero_loop X size_X i s =
     (if i < size_X then reg_zero_loop X size_X (i + 1) (reg_write (X i) 0 s) else s)"
  by pat_completeness auto
termination
  by (relation "measure (\<lambda>(X, size_X, i, s). size_X - i)") auto

declare reg_zero_loop.simps [simp del]

text \<open>
  Lines 63 to 97 of \<^verbatim>\<open>reset_handler_stage_two\<close>: the interrupt controller, the
  priorities and SysTick are reset, then interrupts are enabled.
\<close>

definition stage_two_reset_irqs :: "board \<Rightarrow> mach \<Rightarrow> mach" where
  "stage_two_reset_irqs b s0 =
     (let s1 = nvic_clear_loop b 0 s0;
          s2 = (if CORTEX_M b = 33 then reg_zero_loop NVIC_IPR (NVIC_IP_size b) 0 s1
                else reg_zero_loop NVIC_IP (NVIC_IP_size b) 0 s1);
          s3 = dsb (reg_write SysTick_CTRL (SysTick_CTRL_CLKSOURCE_Msk b) s2);
          s4 = reg_write SCB_ICSR (SCB_ICSR_PENDSVCLR_Msk b OR SCB_ICSR_PENDSTCLR_Msk b) s3;
          s5 = (if CORTEX_M b = 7 \<or> CORTEX_M b = 33
                then reg_zero_loop SCB_SHPR (SCB_SHP_size b) 0 s4
                else reg_zero_loop SCB_SHP (SCB_SHP_size b) 0 s4)
      in cpsie_i (isb (dsb s5)))"

text \<open>
  \<^verbatim>\<open>
  uint32_t count = (&_data_end - &_data_start) * 4;
  boot_memcpy(&_data_start, &_data_flash, count);
  \<close>
\<close>

definition stage_two_copy_data :: "layout \<Rightarrow> mach \<Rightarrow> mach option" where
  "stage_two_copy_data L s =
     (let count = ptr_diff (data_end L) (data_start L) * 4
      in do {
        m \<leftarrow> boot_memcpy (mem s) (data_start L) (data_flash L) count;
        Some (s\<lparr>mem := m\<rparr>)
      })"

text \<open>\<^verbatim>\<open>boot_memset(&_bss_start, 0, (&_bss_end - &_bss_start) * 4);\<close>\<close>

definition stage_two_clear_bss :: "layout \<Rightarrow> mach \<Rightarrow> mach option" where
  "stage_two_clear_bss L s =
     do {
       m \<leftarrow> boot_memset (mem s) (bss_start L) 0 (ptr_diff (bss_end L) (bss_start L) * 4);
       Some (s\<lparr>mem := m\<rparr>)
     }"

text \<open>
  The whole of \<^verbatim>\<open>reset_handler_stage_two\<close>. The application entry \<^verbatim>\<open>armcm_main\<close> is
  external and a parameter; should it return, the handler halts in an empty loop.
\<close>

definition reset_handler_stage_two ::
  "board \<Rightarrow> layout \<Rightarrow> (mach \<Rightarrow> mach option) \<Rightarrow> mach \<Rightarrow> mach option" where
  "reset_handler_stage_two b L armcm_main s =
     do {
       s7 \<leftarrow> stage_two_copy_data L (stage_two_reset_irqs b s);
       s8 \<leftarrow> stage_two_clear_bss L s7;
       s9 \<leftarrow> armcm_main (barrier s8);
       halt_forever s9
     }"

section \<open>Stage one\<close>

text \<open>
  The block of \<^verbatim>\<open>ResetHandler\<close> under \<^verbatim>\<open>#if CONFIG_ARMCM_RAM_VECTORTABLE\<close>
  (lines 126 to 158).
\<close>

definition ram_vectortable_setup :: "board \<Rightarrow> layout \<Rightarrow> mach \<Rightarrow> mach" where
  "ram_vectortable_setup b L s0 =
     (let s1 = reg_write SysTick_CTRL
                 (reg_read SysTick_CTRL s0
                    AND NOT (SysTick_CTRL_TICKINT_Msk b OR SysTick_CTRL_ENABLE_Msk b)) s0;
          s2 = (if reg_read IWDG_KR s1 \<noteq> 0 then reg_write IWDG_KR 0x0000AAAA s1 else s1);
          s3 = cpsid_f (cpsid_i s2);
          s4 = reg_write RCC_BDCR (reg_read RCC_BDCR s3 OR RCC_BDCR_BDRST b) s3;
          s5 = reg_write RCC_BDCR (reg_read RCC_BDCR s4 AND NOT (RCC_BDCR_BDRST b)) s4;
          s6 = mov_sp (stack_end L) s5;
          count_vt = ptr_diff (text_vectortable_end L) (text_vectortable_start L) * 4;
          s7 = s6\<lparr>mem := builtin_memcpy (mem s6) (ram_vectortable_start L)
                              (text_vectortable_start L) count_vt\<rparr>;
          s8 = reg_write SYSCFG_CFGR1
                 (reg_read SYSCFG_CFGR1 s7
                    AND NOT (SYSCFG_CFGR1_MEM_MODE_0 b OR SYSCFG_CFGR1_MEM_MODE_1 b)) s7;
          s9 = reg_write SYSCFG_CFGR1
                 (reg_read SYSCFG_CFGR1 s8
                    OR (SYSCFG_CFGR1_MEM_MODE_0 b OR SYSCFG_CFGR1_MEM_MODE_1 b)) s8
      in cpsie_f (cpsie_i s9))"

text \<open>
  \<^verbatim>\<open>ResetHandler\<close> up to and including its last instructions
  \<^verbatim>\<open>mov sp, %0\<close> and \<^verbatim>\<open>bx %1\<close>: the state in which stage two is entered.
\<close>

definition ResetHandler_stage_one :: "board \<Rightarrow> layout \<Rightarrow> mach \<Rightarrow> mach" where
  "ResetHandler_stage_one b L s0 =
     (let s1 = cpsid_i s0;
          s2 = (if CONFIG_ARMCM_RAM_VECTORTABLE b then ram_vectortable_setup b L s1 else s1)
      in emit BranchStageTwo (mov_sp (stack_end L) s2))"

text \<open>
  \<^verbatim>\<open>ResetHandler\<close> as a whole: \<^verbatim>\<open>bx\<close> continues in \<^verbatim>\<open>reset_handler_stage_two\<close>, and
  nothing of \<^verbatim>\<open>ResetHandler\<close> follows it.
\<close>

definition ResetHandler ::
  "board \<Rightarrow> layout \<Rightarrow> (mach \<Rightarrow> mach option) \<Rightarrow> mach \<Rightarrow> mach option" where
  "ResetHandler b L armcm_main s =
     reset_handler_stage_two b L armcm_main (ResetHandler_stage_one b L s)"

text \<open>\<^verbatim>\<open>DefaultHandler\<close>: \<^verbatim>\<open>for (;;) ;\<close>.\<close>

definition DefaultHandler :: "mach \<Rightarrow> mach option" where
  "DefaultHandler s = halt_forever s"

section \<open>Dynamic memory range\<close>

text \<open>
  \<^verbatim>\<open>void *dynmem_start(void) { return &_bss_end; }\<close> and
  \<^verbatim>\<open>void *dynmem_end(void) { return &_stack_start; }\<close>, returning the result and the
  state they leave.
\<close>

definition dynmem_start :: "layout \<Rightarrow> mach \<Rightarrow> u32 \<times> mach" where
  "dynmem_start L s = (bss_end L, s)"

definition dynmem_end :: "layout \<Rightarrow> mach \<Rightarrow> u32 \<times> mach" where
  "dynmem_end L s = (stack_start L, s)"

text \<open>
  A board for concrete runs: a Cortex-M0 STM32F0 with the values of its CMSIS headers,
  and a small layout with flash at \<open>0x08000000\<close> and RAM at \<open>0x20000000\<close>.
\<close>

definition example_board :: board where
  "example_board =
     \<lparr>CONFIG_ARMCM_RAM_VECTORTABLE = True, CORTEX_M = 0, NVIC_ICER_size = 1,
      NVIC_IP_size = 8, SCB_SHP_size = 2,
      SysTick_CTRL_CLKSOURCE_Msk = 4, SysTick_CTRL_TICKINT_Msk = 2,
      SysTick_CTRL_ENABLE_Msk = 1,
      SCB_ICSR_PENDSVCLR_Msk = 0x08000000, SCB_ICSR_PENDSTCLR_Msk = 0x02000000,
      RCC_BDCR_BDRST = 0x00010000,
      SYSCFG_CFGR1_MEM_MODE_0 = 1, SYSCFG_CFGR1_MEM_MODE_1 = 2\<rparr>"

definition example_layout :: layout where
  "example_layout =
     \<lparr>data_start = 0x20000100, data_end = 0x20000108, data_flash = 0x08001000,
      bss_start = 0x20000108, bss_end = 0x20000110,
      stack_start = 0x20000200, stack_end = 0x20000400,
      text_vectortable_start = 0x08000000, text_vectortable_end = 0x08000008,
      ram_vectortable_start = 0x20000000\<rparr>"

definition example_mach :: mach where
  "example_mach =
     \<lparr>mem = (\<lambda>a. ucast a + 1), regs = (\<lambda>r. if r = IWDG_KR then 1 else 0),
      sp = 0x20000123,
      primask = False, faultmask = False, trace = []\<rparr>"

section \<open>Reading traces\<close>

text \<open>The event is a write to register \<open>r\<close>.\<close>

fun writes_to :: "reg \<Rightarrow> event \<Rightarrow> bool" where
  "writes_to r (RegWrite r' v) = (r' = r)"
| "writes_to r e = False"

text \<open>
  The events of lines 70 to 97 of \<^verbatim>\<open>reset_handler_stage_two\<close>, which follow the loop
  over the interrupt controller's clear-enable and clear-pending registers.
\<close>

definition stage_two_later_events :: "board \<Rightarrow> event list" where
  "stage_two_later_events b =
     map (\<lambda>j. RegWrite ((if CORTEX_M b = 33 then NVIC_IPR else NVIC_IP) j) 0)
       [0..<NVIC_IP_size b]
     @ [RegWrite SysTick_CTRL (SysTick_CTRL_CLKSOURCE_Msk b), DSB,
        RegWrite SCB_ICSR (SCB_ICSR_PENDSVCLR_Msk b OR SCB_ICSR_PENDSTCLR_Msk b)]
     @ map (\<lambda>j. RegWrite ((if CORTEX_M b = 7 \<or> CORTEX_M b = 33 then SCB_SHPR else SCB_SHP) j) 0)
         [0..<SCB_SHP_size b]
     @ [DSB, ISB, CPSIE_I]"

section \<open>Loads, stores and offsets\<close>

lemma small_cases: "k < 4 \<Longrightarrow> k = 0 \<or> k = 1 \<or> k = 2 \<or> k = (3::nat)"
  by arith

lemma byte_of_load32: "k < 4 \<Longrightarrow> byte_of (load32 m p) k = m (p + of_nat k)"
proof -
  have "byte_of (load32 m p) 0 = m p" "byte_of (load32 m p) 1 = m (p + 1)"
    "byte_of (load32 m p) 2 = m (p + 2)" "byte_of (load32 m p) 3 = m (p + 3)"
    unfolding byte_of_def load32_def
    by (rule bit_word_eqI; auto simp add: bit_simps dest: bit_imp_le_length)+
  then show "k < 4 \<Longrightarrow> byte_of (load32 m p) k = m (p + of_nat k)"
    by (auto dest!: small_cases)
qed

lemma load32_bytes:
  assumes "m p = byte_of c 0" "m (p + 1) = byte_of c 1" "m (p + 2) = byte_of c 2"
    "m (p + 3) = byte_of c 3"
  shows "load32 m p = c"
proof (rule bit_word_eqI)
  fix n assume "n < LENGTH(32)"
  then consider "n < 8" | "8 \<le> n" "n < 16" | "16 \<le> n" "n < 24" | "24 \<le> n" "n < 32"
    by fastforce
  then show "bit (load32 m p) n = bit c n"
    by cases (auto simp add: load32_def assms byte_of_def bit_simps)
qed

lemma off_cases: "unat (x::u32) < 4 \<Longrightarrow> x = 0 \<or> x = 1 \<or> x = 2 \<or> x = 3"
proof -
  assume "unat x < 4"
  then have "unat x = 0 \<or> unat x = 1 \<or> unat x = 2 \<or> unat x = 3" by arith
  moreover have "x = of_nat (unat x)" by simp
  ultimately show ?thesis
    by (elim disjE) simp_all
qed

lemma store32_apply:
  "store32 m p v a = (if unat (a - p) < 4 then byte_of v (unat (a - p)) else m a)"
proof (cases "unat (a - p) < 4")
  case True
  from off_cases[OF this] consider "a = p" | "a = p + 1" | "a = p + 2" | "a = p + 3"
    by (auto simp: algebra_simps)
  then show ?thesis
    by cases (simp_all add: store32_def)
next
  case False
  then have "a - p \<noteq> 0" "a - p \<noteq> 1" "a - p \<noteq> 2" "a - p \<noteq> 3" by auto
  then have "a \<noteq> p" "a \<noteq> p + 1" "a \<noteq> p + 2" "a \<noteq> p + 3" by auto
  with False show ?thesis by (simp add: store32_def)
qed

lemma unat_lt32: "unat (x::u32) < 4294967296"
  using unsigned_less[of x] by simp

lemma unat_sub_of_nat:
  fixes x :: u32
  assumes "j < 2 ^ 32"
  shows "unat (x - of_nat j) = (if j \<le> unat x then unat x - j else unat x + 2 ^ 32 - j)"
  using assms by (simp add: unat_sub_if_size unat_of_nat word_size)

lemma off_window:
  fixes x :: u32
  assumes "j + 4 \<le> 2 ^ 32"
  shows "unat (x - of_nat j) < 4 \<longleftrightarrow> j \<le> unat x \<and> unat x < j + 4"
  using assms unat_lt32[of x] by (simp add: unat_sub_of_nat) arith

lemma halt_forever_None: "halt_forever s = None"
proof (cases "halt_forever s")
  case (Some y)
  then have False by (rule halt_forever.raw_induct[rotated, where P="\<lambda>_ _. False"]) blast
  then show ?thesis ..
qed simp

subsection \<open>The fill loop, iteration by iteration\<close>

lemma memset_body_simp:
  "boot_memset_body c (m, p, n) = (store32 m p c, p + 4, n - 4)"
  by (simp add: boot_memset_body_def)

lemma memset_iter_snd:
  "snd ((boot_memset_body c ^^ k) (m, p, n)) = (p + of_nat (4 * k), n - of_nat (4 * k))"
proof (induction k)
  case 0
  show ?case by simp
next
  case (Suc k)
  obtain mk where mk: "(boot_memset_body c ^^ k) (m, p, n) = (mk, p + of_nat (4 * k), n - of_nat (4 * k))"
    using Suc by (metis prod.collapse)
  show ?case
    by (simp add: mk memset_body_simp algebra_simps)
qed

lemma memset_loop_iter:
  "(\<forall>j<k. boot_memset_cond ((boot_memset_body c ^^ j) st)) \<Longrightarrow>
   \<not> boot_memset_cond ((boot_memset_body c ^^ k) st) \<Longrightarrow>
   boot_memset_loop c st = Some ((boot_memset_body c ^^ k) st)"
proof (induction k arbitrary: st)
  case 0
  then show ?case by (subst boot_memset_loop.simps) simp
next
  case (Suc k)
  from Suc.prems(1) have c0: "boot_memset_cond st" by fastforce
  have "\<forall>j<k. boot_memset_cond ((boot_memset_body c ^^ j) (boot_memset_body c st))"
  proof (intro allI impI)
    fix j assume "j < k"
    then have "boot_memset_cond ((boot_memset_body c ^^ Suc j) st)"
      using Suc.prems(1) by blast
    then show "boot_memset_cond ((boot_memset_body c ^^ j) (boot_memset_body c st))"
      by (simp add: funpow_swap1)
  qed
  moreover have "\<not> boot_memset_cond ((boot_memset_body c ^^ k) (boot_memset_body c st))"
    using Suc.prems(2) by (simp add: funpow_swap1)
  ultimately have "boot_memset_loop c (boot_memset_body c st) =
      Some ((boot_memset_body c ^^ k) (boot_memset_body c st))"
    by (rule Suc.IH)
  with c0 show ?case
    by (subst boot_memset_loop.simps) (simp add: funpow_swap1)
qed

lemma counter_zero_iff:
  fixes n :: u32
  assumes "4 * j < 2 ^ 32"
  shows "n - of_nat (4 * j) = 0 \<longleftrightarrow> unat n = 4 * j"
proof -
  have "n - of_nat (4 * j) = 0 \<longleftrightarrow> n = of_nat (4 * j)" by simp
  also have "\<dots> \<longleftrightarrow> unat n = unat (of_nat (4 * j) :: u32)" by (simp only: word_unat_eq_iff)
  also have "unat (of_nat (4 * j) :: u32) = 4 * j" using assms by (subst unat_of_nat) simp
  finally show ?thesis .
qed

lemma counter_never_zero:
  fixes n :: u32
  assumes "\<not> 4 dvd unat n"
  shows "n - of_nat (4 * k) \<noteq> 0"
proof
  assume "n - of_nat (4 * k) = 0"
  then have "n = of_nat (4 * k)" by simp
  then have "unat n = (4 * k) mod 2 ^ 32" by (simp only: unat_of_nat) simp
  moreover have "(4::nat) dvd (4 * k) mod 2 ^ 32" by (rule dvd_mod) simp_all
  ultimately show False using assms by simp
qed

lemma memset_cond_iter:
  "boot_memset_cond ((boot_memset_body c ^^ k) (m, p, n)) \<longleftrightarrow> n - of_nat (4 * k) \<noteq> 0"
  using memset_iter_snd[where c=c and k=k and m=m and p=p and n=n]
  by (cases "(boot_memset_body c ^^ k) (m, p, n)") (simp add: boot_memset_cond_def)

lemma memset_iter_mem:
  "4 * k \<le> 2 ^ 32 \<Longrightarrow>
   fst ((boot_memset_body c ^^ k) (m, p, n)) a =
     (if unat (a - p) < 4 * k then byte_of c (unat (a - p) mod 4) else m a)"
proof (induction k)
  case 0
  show ?case by simp
next
  case (Suc k)
  then have k: "4 * k + 4 \<le> 2 ^ 32" "4 * k < 2 ^ 32" "4 * k \<le> 2 ^ 32" by simp_all
  obtain mk where mk: "(boot_memset_body c ^^ k) (m, p, n) = (mk, p + of_nat (4 * k), n - of_nat (4 * k))"
    using memset_iter_snd[where c=c and k=k and m=m and p=p and n=n] by (metis prod.collapse)
  have IH: "mk a = (if unat (a - p) < 4 * k then byte_of c (unat (a - p) mod 4) else m a)"
    using Suc.IH[OF k(3)] by (simp add: mk)
  have sub: "a - (p + of_nat (4 * k)) = (a - p) - of_nat (4 * k)" by simp
  have "fst ((boot_memset_body c ^^ Suc k) (m, p, n)) a = store32 mk (p + of_nat (4 * k)) c a"
    by (simp add: mk memset_body_simp)
  also have "\<dots> = (if unat (a - p) < 4 * Suc k then byte_of c (unat (a - p) mod 4) else m a)"
  proof (cases "4 * k \<le> unat (a - p) \<and> unat (a - p) < 4 * k + 4")
    case True
    then have "unat ((a - p) - of_nat (4 * k)) = unat (a - p) - 4 * k"
      using unat_sub_of_nat[OF k(2), of "a - p"] by simp
    moreover have "unat (a - p) - 4 * k = unat (a - p) mod 4" using True by presburger
    ultimately show ?thesis
      using True off_window[OF k(1), of "a - p"] by (simp only: store32_apply sub) simp
  next
    case False
    then show ?thesis
      using off_window[OF k(1), of "a - p"] IH by (simp only: store32_apply sub) auto
  qed
  finally show ?case .
qed

subsection \<open>Pointer differences and termination of the fill loop\<close>

lemma sint_cases: "sint (x::u32) = uint x \<or> sint x = uint x - 2 ^ 32"
proof -
  have "take_bit 32 (uint x) = uint x"
    using take_bit_int_eq_self[of "uint x" 32] uint_bounded[of x] by simp
  then show ?thesis
    by (simp add: sint_uint signed_take_bit_eq_take_bit_minus)
qed

lemma word_aligned_dvd: "word_aligned p \<longleftrightarrow> 4 dvd unat p"
  using and_mask_dvd_nat[of 2 p] by (simp add: word_aligned_def mask_eq_exp_minus_1)

lemma dvd_unat_sub:
  fixes e s :: u32
  assumes "4 dvd unat e" "4 dvd unat s"
  shows "4 dvd unat (e - s)"
  using assms unat_lt32[of e] unat_lt32[of s]
  by (simp add: unat_sub_if_size word_size)

lemma dvd_unat_sub4:
  fixes n :: u32
  shows "4 dvd unat (n - 4) \<longleftrightarrow> 4 dvd unat n"
  using unat_lt32[of n]
  by (simp add: unat_sub_if_size word_size) presburger

lemma ptr_diff_times4:
  assumes "4 dvd unat (e - s)"
  shows "ptr_diff e s * 4 = e - s"
proof -
  let ?x = "e - s"
  have "(4::int) dvd int (unat ?x)" using assms by (metis int_dvd_int_iff of_nat_numeral)
  then have "4 dvd uint ?x" by simp
  then have d: "4 dvd sint ?x" using sint_cases[of ?x] by auto
  then have "sint ?x sdiv 4 * 4 = sint ?x"
    by (simp add: signed_divide_int_def sgn_if) 
  then have "word_of_int (sint ?x sdiv 4 * 4) = ?x" by simp
  then show ?thesis by (simp add: ptr_diff_def)
qed

lemma ptr_diff_aligned:
  "word_aligned e \<Longrightarrow> word_aligned s \<Longrightarrow> ptr_diff e s * 4 = e - s"
  by (simp add: ptr_diff_times4 dvd_unat_sub word_aligned_dvd)

lemma memset_loop_Some_dvd:
  assumes "boot_memset_loop c st = Some y"
  shows "4 dvd unat (snd (snd st))"
  using assms
proof (rule boot_memset_loop.raw_induct[rotated, where P = "\<lambda>c st y. 4 dvd unat (snd (snd st))"])
  fix f c st y
  assume IH: "\<And>c st y. f c st = Some y \<Longrightarrow> 4 dvd unat (snd (snd st))"
    and eq: "(if boot_memset_cond st then f c (boot_memset_body c st) else Some st) = Some y"
  obtain m p n where st: "st = (m, p, n)" by (cases st) auto
  show "4 dvd unat (snd (snd st))"
  proof (cases "boot_memset_cond st")
    case True
    with eq have "f c (boot_memset_body c st) = Some y" by simp
    from IH[OF this] show ?thesis by (simp add: st memset_body_simp dvd_unat_sub4)
  next
    case False
    then show ?thesis by (simp add: st boot_memset_cond_def)
  qed
qed

lemma memset_loop_diverges:
  "\<not> 4 dvd unat n \<Longrightarrow> boot_memset_loop c (m, p, n) = None"
  using memset_loop_Some_dvd[of c "(m, p, n)"] by (cases "boot_memset_loop c (m, p, n)") auto

lemma memset_loop_terminates:
  assumes "4 dvd unat n"
  shows "boot_memset_loop c (m, p, n) = Some ((boot_memset_body c ^^ (unat n div 4)) (m, p, n))"
    and "\<forall>j < unat n div 4. boot_memset_cond ((boot_memset_body c ^^ j) (m, p, n))"
    and "\<not> boot_memset_cond ((boot_memset_body c ^^ (unat n div 4)) (m, p, n))"
proof -
  let ?q = "unat n div 4"
  have q: "unat n = 4 * ?q" using assms by simp
  have lt: "4 * ?q < 2 ^ 32" using unat_lt32[of n] q by simp
  show c1: "\<forall>j < ?q. boot_memset_cond ((boot_memset_body c ^^ j) (m, p, n))"
  proof (intro allI impI)
    fix j assume j: "j < ?q"
    then have "4 * j < 2 ^ 32" using lt by simp
    from counter_zero_iff[OF this, of n] j q
    have "n - of_nat (4 * j) \<noteq> 0" by simp
    then show "boot_memset_cond ((boot_memset_body c ^^ j) (m, p, n))"
      unfolding memset_cond_iter .
  qed
  have "n - of_nat (4 * ?q) = 0"
    using counter_zero_iff[OF lt, of n] q by simp
  then show c2: "\<not> boot_memset_cond ((boot_memset_body c ^^ ?q) (m, p, n))"
    unfolding memset_cond_iter by simp
  show "boot_memset_loop c (m, p, n) = Some ((boot_memset_body c ^^ ?q) (m, p, n))"
    using c1 c2 by (rule memset_loop_iter)
qed

lemma boot_memset_result:
  assumes "4 dvd unat n"
  shows "boot_memset m s c n =
           Some (\<lambda>a. if in_range s n a then byte_of c (unat (a - s) mod 4) else m a)"
proof -
  let ?q = "unat n div 4"
  have q: "4 * ?q = unat n" using assms by simp
  have le: "4 * ?q \<le> 2 ^ 32" using unat_lt32[of n] q by simp
  have "fst ((boot_memset_body c ^^ ?q) (m, s, n)) =
          (\<lambda>a. if in_range s n a then byte_of c (unat (a - s) mod 4) else m a)"
    by (rule ext) (simp only: memset_iter_mem[OF le] q in_range_def)
  then show ?thesis
    by (simp add: boot_memset_def memset_loop_terminates(1)[OF assms])
qed

subsection \<open>Regions given by a start and an end address\<close>

lemma in_range_interval:
  assumes "s \<le> e"
  shows "in_range s (e - s) a \<longleftrightarrow> s \<le> a \<and> a < e"
  using assms unat_lt32[of a] unat_lt32[of e] unat_lt32[of s]
  by (simp add: in_range_def unat_sub_if_size word_size word_le_nat_alt word_less_nat_alt) arith

lemma byte_of_zero: "byte_of 0 k = 0"
  by (simp add: byte_of_def)

lemma region_count:
  "valid_region s e \<Longrightarrow> ptr_diff e s * 4 = e - s \<and> 4 dvd unat (e - s)"
  by (simp add: valid_region_def ptr_diff_aligned dvd_unat_sub word_aligned_dvd)

subsection \<open>The copy loop, iteration by iteration\<close>

lemma memcpy_body_simp:
  "boot_memcpy_body (m, d, s, n) = (store32 m d (load32 m s), d + 4, s + 4, n - 4)"
  by (simp add: boot_memcpy_body_def)

lemma memcpy_iter_snd:
  "snd ((boot_memcpy_body ^^ k) (m, d, s, n)) =
     (d + of_nat (4 * k), s + of_nat (4 * k), n - of_nat (4 * k))"
proof (induction k)
  case 0
  show ?case by simp
next
  case (Suc k)
  obtain mk where mk: "(boot_memcpy_body ^^ k) (m, d, s, n) =
      (mk, d + of_nat (4 * k), s + of_nat (4 * k), n - of_nat (4 * k))"
    using Suc by (metis prod.collapse)
  show ?case
    by (simp add: mk memcpy_body_simp algebra_simps)
qed

lemma memcpy_loop_iter:
  "(\<forall>j<k. boot_memcpy_cond ((boot_memcpy_body ^^ j) st)) \<Longrightarrow>
   \<not> boot_memcpy_cond ((boot_memcpy_body ^^ k) st) \<Longrightarrow>
   boot_memcpy_loop st = Some ((boot_memcpy_body ^^ k) st)"
proof (induction k arbitrary: st)
  case 0
  then show ?case by (subst boot_memcpy_loop.simps) simp
next
  case (Suc k)
  from Suc.prems(1) have c0: "boot_memcpy_cond st" by fastforce
  have "\<forall>j<k. boot_memcpy_cond ((boot_memcpy_body ^^ j) (boot_memcpy_body st))"
  proof (intro allI impI)
    fix j assume "j < k"
    then have "boot_memcpy_cond ((boot_memcpy_body ^^ Suc j) st)"
      using Suc.prems(1) by blast
    then show "boot_memcpy_cond ((boot_memcpy_body ^^ j) (boot_memcpy_body st))"
      by (simp add: funpow_swap1)
  qed
  moreover have "\<not> boot_memcpy_cond ((boot_memcpy_body ^^ k) (boot_memcpy_body st))"
    using Suc.prems(2) by (simp add: funpow_swap1)
  ultimately have "boot_memcpy_loop (boot_memcpy_body st) =
      Some ((boot_memcpy_body ^^ k) (boot_memcpy_body st))"
    by (rule Suc.IH)
  with c0 show ?case
    by (subst boot_memcpy_loop.simps) (simp add: funpow_swap1)
qed

lemma memcpy_cond_iter:
  "boot_memcpy_cond ((boot_memcpy_body ^^ k) (m, d, s, n)) \<longleftrightarrow> n - of_nat (4 * k) \<noteq> 0"
  using memcpy_iter_snd[where k=k and m=m and d=d and s=s and n=n]
  by (cases "(boot_memcpy_body ^^ k) (m, d, s, n)") (simp add: boot_memcpy_cond_def)

lemma memcpy_loop_Some_dvd:
  assumes "boot_memcpy_loop st = Some y"
  shows "4 dvd unat (snd (snd (snd st)))"
  using assms
proof (rule boot_memcpy_loop.raw_induct[rotated, where P = "\<lambda>st y. 4 dvd unat (snd (snd (snd st)))"])
  fix f st y
  assume IH: "\<And>st y. f st = Some y \<Longrightarrow> 4 dvd unat (snd (snd (snd st)))"
    and eq: "(if boot_memcpy_cond st then f (boot_memcpy_body st) else Some st) = Some y"
  obtain m d s n where st: "st = (m, d, s, n)" by (cases st) auto
  show "4 dvd unat (snd (snd (snd st)))"
  proof (cases "boot_memcpy_cond st")
    case True
    with eq have "f (boot_memcpy_body st) = Some y" by simp
    from IH[OF this] show ?thesis by (simp add: st memcpy_body_simp dvd_unat_sub4)
  next
    case False
    then show ?thesis by (simp add: st boot_memcpy_cond_def)
  qed
qed

lemma memcpy_loop_diverges:
  "\<not> 4 dvd unat n \<Longrightarrow> boot_memcpy_loop (m, d, s, n) = None"
  using memcpy_loop_Some_dvd[of "(m, d, s, n)"] by (cases "boot_memcpy_loop (m, d, s, n)") auto

lemma memcpy_loop_terminates:
  assumes "4 dvd unat n"
  shows "boot_memcpy_loop (m, d, s, n) = Some ((boot_memcpy_body ^^ (unat n div 4)) (m, d, s, n))"
    and "\<forall>j < unat n div 4. boot_memcpy_cond ((boot_memcpy_body ^^ j) (m, d, s, n))"
    and "\<not> boot_memcpy_cond ((boot_memcpy_body ^^ (unat n div 4)) (m, d, s, n))"
proof -
  let ?q = "unat n div 4"
  have q: "unat n = 4 * ?q" using assms by simp
  have lt: "4 * ?q < 2 ^ 32" using unat_lt32[of n] q by simp
  show c1: "\<forall>j < ?q. boot_memcpy_cond ((boot_memcpy_body ^^ j) (m, d, s, n))"
  proof (intro allI impI)
    fix j assume j: "j < ?q"
    then have "4 * j < 2 ^ 32" using lt by simp
    from counter_zero_iff[OF this, of n] j q
    have "n - of_nat (4 * j) \<noteq> 0" by simp
    then show "boot_memcpy_cond ((boot_memcpy_body ^^ j) (m, d, s, n))"
      unfolding memcpy_cond_iter .
  qed
  have "n - of_nat (4 * ?q) = 0"
    using counter_zero_iff[OF lt, of n] q by simp
  then show c2: "\<not> boot_memcpy_cond ((boot_memcpy_body ^^ ?q) (m, d, s, n))"
    unfolding memcpy_cond_iter by simp
  show "boot_memcpy_loop (m, d, s, n) = Some ((boot_memcpy_body ^^ ?q) (m, d, s, n))"
    using c1 c2 by (rule memcpy_loop_iter)
qed

lemma memcpy_iter_frame:
  "4 * k \<le> 2 ^ 32 \<Longrightarrow> \<not> unat (a - d) < 4 * k \<Longrightarrow>
   fst ((boot_memcpy_body ^^ k) (m, d, s, n)) a = m a"
proof (induction k)
  case 0
  show ?case by simp
next
  case (Suc k)
  then have k: "4 * k + 4 \<le> 2 ^ 32" "4 * k \<le> 2 ^ 32" "\<not> unat (a - d) < 4 * k" by simp_all
  obtain mk where mk: "(boot_memcpy_body ^^ k) (m, d, s, n) =
      (mk, d + of_nat (4 * k), s + of_nat (4 * k), n - of_nat (4 * k))"
    using memcpy_iter_snd[where k=k and m=m and d=d and s=s and n=n] by (metis prod.collapse)
  have IH: "mk a = m a" using Suc.IH[OF k(2) k(3)] by (simp add: mk)
  have sub: "a - (d + of_nat (4 * k)) = (a - d) - of_nat (4 * k)" by simp
  have "\<not> unat ((a - d) - of_nat (4 * k)) < 4"
    using off_window[OF k(1), of "a - d"] Suc.prems(2) by simp
  then have "store32 mk (d + of_nat (4 * k)) (load32 mk (s + of_nat (4 * k))) a = mk a"
    by (simp only: store32_apply sub if_False)
  then show ?case by (simp add: mk memcpy_body_simp IH)
qed

lemma sub_small:
  fixes X Y :: u32
  assumes "unat X < N" "unat Y < N"
  shows "unat (X - Y) < N \<or> unat (Y - X) < N"
proof (cases "unat Y \<le> unat X")
  case True
  then have "unat (X - Y) = unat X - unat Y" by (simp add: unat_sub_if_size)
  with assms show ?thesis by arith
next
  case False
  then have "unat (Y - X) = unat Y - unat X" by (simp add: unat_sub_if_size)
  with assms show ?thesis by arith
qed

lemma regions_disjoint_in_range:
  assumes "regions_disjoint d s n" "in_range s n a"
  shows "\<not> in_range d n a"
proof
  assume "in_range d n a"
  then have "unat ((a - d) - (a - s)) < unat n \<or> unat ((a - s) - (a - d)) < unat n"
    using assms(2) unfolding in_range_def by (rule sub_small)
  moreover have "(a - d) - (a - s) = s - d" "(a - s) - (a - d) = d - s" by simp_all
  ultimately have "unat (s - d) < unat n \<or> unat (d - s) < unat n" by simp
  with assms(1) show False by (auto simp: regions_disjoint_def)
qed

lemma boot_memcpy_frame:
  assumes "4 dvd unat n"
  shows "\<exists>m'. boot_memcpy m d s n = Some m' \<and> (\<forall>a. \<not> in_range d n a \<longrightarrow> m' a = m a)"
proof -
  let ?q = "unat n div 4"
  have q: "4 * ?q = unat n" using assms by simp
  have le: "4 * ?q \<le> 2 ^ 32" using unat_lt32[of n] q by simp
  have "\<forall>a. \<not> in_range d n a \<longrightarrow> fst ((boot_memcpy_body ^^ ?q) (m, d, s, n)) a = m a"
    using memcpy_iter_frame[OF le, of _ d m s n] by (simp add: in_range_def q)
  then show ?thesis
    by (simp add: boot_memcpy_def memcpy_loop_terminates(1)[OF assms])
qed

lemma unat_add_small:
  fixes w :: u32
  assumes "unat w + i < 2 ^ 32"
  shows "unat (w + of_nat i) = unat w + i"
proof -
  have "i < 2 ^ 32" using assms by simp
  then have "unat (of_nat i :: u32) = i" by (subst unat_of_nat) simp
  then show ?thesis using assms by (simp add: unat_word_ariths)
qed

lemma memcpy_iter_mem:
  "regions_disjoint d s n \<Longrightarrow> 4 * k \<le> unat n \<Longrightarrow>
   fst ((boot_memcpy_body ^^ k) (m, d, s, n)) a =
     (if unat (a - d) < 4 * k then m (s + (a - d)) else m a)"
proof (induction k arbitrary: a)
  case 0
  show ?case by simp
next
  case (Suc k)
  have n32: "unat n < 2 ^ 32" using unat_lt32[of n] by simp
  with Suc.prems have k: "4 * k + 4 \<le> 2 ^ 32" "4 * k < 2 ^ 32" "4 * k \<le> unat n" "4 * k + 4 \<le> unat n"
    by simp_all
  define w :: u32 where "w = of_nat (4 * k)"
  have uw: "unat w = 4 * k" unfolding w_def using k(2) by (subst unat_of_nat) simp
  obtain mk where mk: "(boot_memcpy_body ^^ k) (m, d, s, n) = (mk, d + w, s + w, n - w)"
    using memcpy_iter_snd[where k=k and m=m and d=d and s=s and n=n] unfolding w_def
    by (metis prod.collapse)
  have IH: "mk b = (if unat (b - d) < 4 * k then m (s + (b - d)) else m b)" for b
    using Suc.IH[OF Suc.prems(1) k(3), of b] by (simp add: mk)
  have src: "mk (s + (w + of_nat i)) = m (s + (w + of_nat i))" if "i < 4" for i
  proof -
    let ?b = "s + (w + of_nat i)"
    have bs: "?b - s = w + of_nat i" by simp
    have "unat (w + of_nat i) = 4 * k + i"
      using unat_add_small[of w i] uw that k(1) by simp
    then have "in_range s n ?b" using that k(4) unfolding in_range_def bs by simp
    from regions_disjoint_in_range[OF Suc.prems(1) this]
    have "\<not> unat (?b - d) < 4 * k" using k(3) unfolding in_range_def by simp
    then show ?thesis unfolding IH[of ?b] by (rule if_not_P)
  qed
  have sub: "a - (d + w) = (a - d) - w" by simp
  have win: "unat ((a - d) - w) < 4 \<longleftrightarrow> 4 * k \<le> unat (a - d) \<and> unat (a - d) < 4 * k + 4"
    using off_window[OF k(1), of "a - d"] unfolding w_def .
  have "fst ((boot_memcpy_body ^^ Suc k) (m, d, s, n)) a =
      store32 mk (d + w) (load32 mk (s + w)) a"
    by (simp add: mk memcpy_body_simp)
  also have "\<dots> = (if unat (a - d) < 4 * Suc k then m (s + (a - d)) else m a)"
  proof (cases "4 * k \<le> unat (a - d) \<and> unat (a - d) < 4 * k + 4")
    case True
    define i where "i = unat ((a - d) - w)"
    have i4: "i < 4" unfolding i_def using True win by simp
    have "unat w \<le> unat (a - d)" using True uw by simp
    then have "unat (a - d) = unat w + i"
      unfolding i_def by (simp add: unat_sub_if_size)
    moreover have "unat (w + of_nat i) = unat w + i"
      using unat_add_small[of w i] uw i4 k(1) by simp
    ultimately have "unat (a - d) = unat (w + of_nat i)" by simp
    then have ad: "a - d = w + of_nat i" by (simp only: word_unat_eq_iff)
    have "store32 mk (d + w) (load32 mk (s + w)) a = byte_of (load32 mk (s + w)) i"
      unfolding store32_apply sub using i4 by (simp add: i_def)
    also have "\<dots> = mk (s + w + of_nat i)" using i4 by (rule byte_of_load32)
    also have "\<dots> = mk (s + (w + of_nat i))" by (simp only: add.assoc)
    also have "\<dots> = m (s + (w + of_nat i))" by (rule src[OF i4])
    also have "\<dots> = m (s + (a - d))" by (simp only: ad)
    finally show ?thesis using True by simp
  next
    case False
    then have "\<not> unat ((a - d) - w) < 4" using win by simp
    then have "store32 mk (d + w) (load32 mk (s + w)) a = mk a"
      unfolding store32_apply sub by (rule if_not_P)
    then show ?thesis using False IH[of a] by auto
  qed
  finally show ?case .
qed

lemma boot_memcpy_result:
  assumes "4 dvd unat n" "regions_disjoint d s n"
  shows "boot_memcpy m d s n = Some (\<lambda>a. if in_range d n a then m (s + (a - d)) else m a)"
proof -
  let ?q = "unat n div 4"
  have q: "4 * ?q = unat n" using assms by simp
  have "fst ((boot_memcpy_body ^^ ?q) (m, d, s, n)) =
          (\<lambda>a. if in_range d n a then m (s + (a - d)) else m a)"
    by (rule ext) (simp only: memcpy_iter_mem[OF assms(2) eq_refl[OF q]] q in_range_def)
  then show ?thesis
    by (simp add: boot_memcpy_def memcpy_loop_terminates(1)[OF assms(1)])
qed

subsection \<open>What the register operations leave alone\<close>

lemma emit_simps:
  "mem (emit e s) = mem s" "regs (emit e s) = regs s" "sp (emit e s) = sp s"
  "trace (emit e s) = trace s @ [e]"
  by (simp_all add: emit_def)

lemma reg_write_simps:
  "mem (reg_write r v s) = mem s" "regs (reg_write r v s) = (regs s)(r := v)"
  "sp (reg_write r v s) = sp s" "trace (reg_write r v s) = trace s @ [RegWrite r v]"
  by (simp_all add: reg_write_def emit_def)

lemma barrier_simps:
  "mem (dsb s) = mem s" "regs (dsb s) = regs s" "sp (dsb s) = sp s" "trace (dsb s) = trace s @ [DSB]"
  "mem (isb s) = mem s" "regs (isb s) = regs s" "sp (isb s) = sp s" "trace (isb s) = trace s @ [ISB]"
  by (simp_all add: dsb_def isb_def emit_def)

lemma cps_simps:
  "mem (cpsid_i s) = mem s" "regs (cpsid_i s) = regs s" "sp (cpsid_i s) = sp s"
  "trace (cpsid_i s) = trace s @ [CPSID_I]"
  "mem (cpsie_i s) = mem s" "regs (cpsie_i s) = regs s" "sp (cpsie_i s) = sp s"
  "trace (cpsie_i s) = trace s @ [CPSIE_I]"
  "mem (cpsid_f s) = mem s" "regs (cpsid_f s) = regs s" "sp (cpsid_f s) = sp s"
  "trace (cpsid_f s) = trace s @ [CPSID_F]"
  "mem (cpsie_f s) = mem s" "regs (cpsie_f s) = regs s" "sp (cpsie_f s) = sp s"
  "trace (cpsie_f s) = trace s @ [CPSIE_F]"
  by (simp_all add: cpsid_i_def cpsie_i_def cpsid_f_def cpsie_f_def emit_def)

lemma mov_sp_simps:
  "mem (mov_sp v s) = mem s" "regs (mov_sp v s) = regs s" "sp (mov_sp v s) = v"
  "trace (mov_sp v s) = trace s @ [MovSP v]"
  by (simp_all add: mov_sp_def emit_def)

lemmas step_simps = emit_simps reg_write_simps barrier_simps cps_simps mov_sp_simps

lemma nvic_clear_loop_mem: "mem (nvic_clear_loop b i s) = mem s"
proof (induction b i s rule: nvic_clear_loop.induct)
  case (1 b i s)
  show ?case
  proof (cases "i < NVIC_ICER_size b")
    case True
    with 1 show ?thesis by (subst nvic_clear_loop.simps) (simp add: step_simps)
  next
    case False
    then show ?thesis by (subst nvic_clear_loop.simps) simp
  qed
qed

lemma nvic_clear_loop_trace:
  "trace (nvic_clear_loop b i s) =
     trace s @ concat (map (\<lambda>i. [RegWrite (NVIC_ICER i) 0xFFFFFFFF, DSB, RegWrite (NVIC_ICPR i) 0xFFFFFFFF]) [i..<NVIC_ICER_size b])"
proof (induction b i s rule: nvic_clear_loop.induct)
  case (1 b i s)
  show ?case
  proof (cases "i < NVIC_ICER_size b")
    case True
    with 1 show ?thesis
      by (subst nvic_clear_loop.simps)
         (simp add: step_simps upt_conv_Cons[of i])
  next
    case False
    then show ?thesis by (subst nvic_clear_loop.simps) simp
  qed
qed

lemma reg_zero_loop_mem: "mem (reg_zero_loop X n i s) = mem s"
proof (induction X n i s rule: reg_zero_loop.induct)
  case (1 X n i s)
  show ?case
  proof (cases "i < n")
    case True
    with 1 show ?thesis by (subst reg_zero_loop.simps) (simp add: step_simps)
  next
    case False
    then show ?thesis by (subst reg_zero_loop.simps) simp
  qed
qed

lemma reg_zero_loop_trace:
  "trace (reg_zero_loop X n i s) = trace s @ map (\<lambda>j. RegWrite (X j) 0) [i..<n]"
proof (induction X n i s rule: reg_zero_loop.induct)
  case (1 X n i s)
  show ?case
  proof (cases "i < n")
    case True
    with 1 show ?thesis
      by (subst reg_zero_loop.simps) (simp add: step_simps upt_conv_Cons[of i])
  next
    case False
    then show ?thesis by (subst reg_zero_loop.simps) simp
  qed
qed

lemma stage_two_reset_irqs_mem: "mem (stage_two_reset_irqs b s) = mem s"
  by (simp add: stage_two_reset_irqs_def Let_def step_simps nvic_clear_loop_mem reg_zero_loop_mem)

lemma stage_two_reset_irqs_trace:
  "trace (stage_two_reset_irqs b s) =
     trace s @ concat (map (\<lambda>i. [RegWrite (NVIC_ICER i) 0xFFFFFFFF, DSB, RegWrite (NVIC_ICPR i) 0xFFFFFFFF]) [0..<NVIC_ICER_size b]) @ stage_two_later_events b"
  by (simp add: stage_two_reset_irqs_def Let_def step_simps nvic_clear_loop_trace
      reg_zero_loop_trace stage_two_later_events_def)

lemma stage_two_later_events_no_nvic:
  "RegWrite (NVIC_ICER i) v \<notin> set (stage_two_later_events b)"
  "RegWrite (NVIC_ICPR i) v \<notin> set (stage_two_later_events b)"
  by (auto simp: stage_two_later_events_def)

subsection \<open>The two stages as a whole\<close>

lemma in_range_source:
  "in_range src n (src + (a - d)) \<longleftrightarrow> in_range d n a"
  by (simp add: in_range_def)

lemma reset_handler_stage_two_None: "reset_handler_stage_two b L armcm_main s = None"
  by (simp add: reset_handler_stage_two_def halt_forever_None split: Option.bind_split)

lemma ram_vectortable_setup_sp: "sp (ram_vectortable_setup b L s) = stack_end L"
  by (simp add: ram_vectortable_setup_def Let_def step_simps)

lemma ram_vectortable_setup_mem:
  "mem (ram_vectortable_setup b L s) =
     builtin_memcpy (mem s) (ram_vectortable_start L) (text_vectortable_start L)
       (ptr_diff (text_vectortable_end L) (text_vectortable_start L) * 4)"
  by (simp add: ram_vectortable_setup_def Let_def step_simps)

lemma ram_vectortable_setup_cfgr1:
  "regs (ram_vectortable_setup b L s) SYSCFG_CFGR1 =
     (regs s SYSCFG_CFGR1 AND NOT (SYSCFG_CFGR1_MEM_MODE_0 b OR SYSCFG_CFGR1_MEM_MODE_1 b))
       OR (SYSCFG_CFGR1_MEM_MODE_0 b OR SYSCFG_CFGR1_MEM_MODE_1 b)"
  by (simp add: ram_vectortable_setup_def Let_def step_simps reg_read_def)

lemma ram_vectortable_setup_trace:
  "\<exists>evs. trace (ram_vectortable_setup b L s) = trace s @ evs \<and>
     filter (writes_to IWDG_KR) evs =
       (if reg_read IWDG_KR s \<noteq> 0 then [RegWrite IWDG_KR 0x0000AAAA] else [])"
  by (simp add: ram_vectortable_setup_def Let_def step_simps reg_read_def)

lemma or_mask_and:
  fixes v :: u32
  shows "(v OR (a OR b)) AND a = a" "(v OR (a OR b)) AND b = b"
  by (rule bit_word_eqI; auto simp add: bit_simps)+

subsection \<open>Zero length and the loops that do not return\<close>

lemma not_in_range_zero: "\<not> in_range s 0 a"
  by (simp add: in_range_def)

lemma boot_memset_zero_len: "boot_memset m s c 0 = Some m"
  using boot_memset_result[of 0 m s c] by (simp add: not_in_range_zero)

lemma boot_memcpy_zero_len: "boot_memcpy m d s 0 = Some m"
proof -
  obtain m' where "boot_memcpy m d s 0 = Some m'" "\<forall>a. \<not> in_range d 0 a \<longrightarrow> m' a = m a"
    using boot_memcpy_frame[of 0 m d s] by auto
  then show ?thesis by (auto simp: not_in_range_zero)
qed

lemma memset_cond_always:
  "\<not> 4 dvd unat n \<Longrightarrow> boot_memset_cond ((boot_memset_body c ^^ k) (m, p, n))"
  unfolding memset_cond_iter by (rule counter_never_zero)

lemma memcpy_cond_always:
  "\<not> 4 dvd unat n \<Longrightarrow> boot_memcpy_cond ((boot_memcpy_body ^^ k) (m, d, s, n))"
  unfolding memcpy_cond_iter by (rule counter_never_zero)

lemma boot_memset_Some_iff: "boot_memset m s c n \<noteq> None \<longleftrightarrow> 4 dvd unat n"
proof (cases "4 dvd unat n")
  case True
  then show ?thesis by (simp add: boot_memset_def memset_loop_terminates(1))
next
  case False
  then show ?thesis by (simp add: boot_memset_def memset_loop_diverges)
qed

lemma boot_memcpy_Some_iff: "boot_memcpy m d s n \<noteq> None \<longleftrightarrow> 4 dvd unat n"
proof (cases "4 dvd unat n")
  case True
  then show ?thesis by (simp add: boot_memcpy_def memcpy_loop_terminates(1))
next
  case False
  then show ?thesis by (simp add: boot_memcpy_def memcpy_loop_diverges)
qed

subsection \<open>Word fill against byte fill\<close>

lemma all_bytes_equal_byte_of:
  "all_bytes_equal c \<Longrightarrow> k < 4 \<Longrightarrow> byte_of c k = ucast c"
proof -
  assume a: "all_bytes_equal c" and "k < 4"
  from small_cases[OF this(2)] show ?thesis
    using a by (elim disjE) (simp_all add: all_bytes_equal_def byte_of_def)
qed

lemma byte_of_0: "byte_of c 0 = ucast c"
  by (simp add: byte_of_def)

lemma boot_memset_bytewise:
  assumes "all_bytes_equal c" "4 dvd unat n"
  shows "boot_memset m s c n = Some (memset_bytes m s c n)"
proof -
  have "(\<lambda>a. if in_range s n a then byte_of c (unat (a - s) mod 4) else m a) =
      memset_bytes m s c n"
    by (rule ext) (simp add: memset_bytes_def all_bytes_equal_byte_of[OF assms(1)])
  then show ?thesis by (simp add: boot_memset_result[OF assms(2)])
qed

lemma in_range_small:
  fixes n :: u32
  assumes "4 \<le> unat n" "i < 4"
  shows "in_range s n (s + of_nat i)" "unat (s + of_nat i - s) = i"
proof -
  have "unat (of_nat i :: u32) = i" using assms(2) by (subst unat_of_nat) simp
  then show "unat (s + of_nat i - s) = i" by simp
  then show "in_range s n (s + of_nat i)" using assms unfolding in_range_def by simp
qed

lemma boot_memset_not_bytewise:
  assumes "4 dvd unat n" "n \<noteq> 0" "boot_memset m s c n = Some (memset_bytes m s c n)"
  shows "all_bytes_equal c"
proof -
  have "unat n \<noteq> 0" using assms(2) by (simp add: unat_eq_0)
  with assms(1) have n4: "4 \<le> unat n" by (simp add: dvd_imp_le)
  have "(\<lambda>a. if in_range s n a then byte_of c (unat (a - s) mod 4) else m a) =
      memset_bytes m s c n"
    using assms(3) unfolding boot_memset_result[OF assms(1)] by simp
  then have eq: "(if in_range s n a then byte_of c (unat (a - s) mod 4) else m a) =
      memset_bytes m s c n a" for a
    by (rule fun_cong)
  have "byte_of c i = ucast c" if "i < 4" for i
    using eq[of "s + of_nat i"] in_range_small[OF n4 that, of s] that
    by (simp add: memset_bytes_def)
  from this[of 1] this[of 2] this[of 3] show ?thesis
    by (simp add: all_bytes_equal_def byte_of_0)
qed

lemma boot_memset_words:
  assumes "4 dvd unat n" "j < unat n div 4"
  shows "\<exists>m'. boot_memset m s c n = Some m' \<and> load32 m' (s + of_nat (4 * j)) = c"
proof -
  define m' where "m' = (\<lambda>a. if in_range s n a then byte_of c (unat (a - s) mod 4) else m a)"
  define w :: u32 where "w = of_nat (4 * j)"
  have j4: "4 * j + 4 \<le> unat n" using assms(2) by presburger
  then have lt: "4 * j + 4 \<le> 2 ^ 32" using unat_lt32[of n] by simp
  then have uw: "unat w = 4 * j" unfolding w_def by (subst unat_of_nat) simp
  have b: "m' (s + w + of_nat i) = byte_of c i" if "i < 4" for i
  proof -
    have "unat (w + of_nat i) = 4 * j + i"
      using unat_add_small[of w i] uw that lt by simp
    moreover have "s + w + of_nat i - s = w + of_nat i" by simp
    ultimately have u: "unat (s + w + of_nat i - s) = 4 * j + i" by simp
    then have "in_range s n (s + w + of_nat i)" using that j4 by (simp add: in_range_def)
    then have "m' (s + w + of_nat i) = byte_of c ((4 * j + i) mod 4)"
      unfolding m'_def u[symmetric] by simp
    then show ?thesis using that by simp
  qed
  have "m' (s + w) = byte_of c 0" using b[of 0] by simp
  moreover have "m' (s + w + 1) = byte_of c 1" using b[of 1] by simp
  moreover have "m' (s + w + 2) = byte_of c 2" using b[of 2] by simp
  moreover have "m' (s + w + 3) = byte_of c 3" using b[of 3] by simp
  ultimately have "load32 m' (s + w) = c" by (rule load32_bytes)
  moreover have "boot_memset m s c n = Some m'"
    unfolding m'_def by (rule boot_memset_result[OF assms(1)])
  ultimately show ?thesis unfolding w_def by blast
qed

subsection \<open>The write to the watchdog key register\<close>

text \<open>
  With \<open>CONFIG_ARMCM_RAM_VECTORTABLE\<close>, what stage one writes to \<open>IWDG->KR\<close> is decided
  by the value it reads from \<open>IWDG->KR\<close> alone: the key \<open>0xAAAA\<close>, once, when that value
  is non-zero, and nothing otherwise. Whether a non-zero value means a running watchdog
  is a property of the peripheral: the state holds registers and memory and has no
  notion of it.
\<close>

lemma iwdg_key_written_iff_kr_nonzero:
  assumes "CONFIG_ARMCM_RAM_VECTORTABLE b"
  shows "\<exists>evs. trace (ResetHandler_stage_one b L s) = trace s @ evs \<and>
           (RegWrite IWDG_KR 0x0000AAAA \<in> set evs \<longleftrightarrow> reg_read IWDG_KR s \<noteq> 0) \<and>
           filter (writes_to IWDG_KR) evs =
             (if reg_read IWDG_KR s \<noteq> 0 then [RegWrite IWDG_KR 0x0000AAAA] else [])"
proof -
  obtain evs where evs: "trace (ram_vectortable_setup b L (cpsid_i s)) = trace (cpsid_i s) @ evs"
    and f: "filter (writes_to IWDG_KR) evs =
       (if reg_read IWDG_KR (cpsid_i s) \<noteq> 0 then [RegWrite IWDG_KR 0x0000AAAA] else [])"
    using ram_vectortable_setup_trace[of b L "cpsid_i s"] by blast
  let ?evs = "CPSID_I # evs @ [MovSP (stack_end L), BranchStageTwo]"
  have rd: "reg_read IWDG_KR (cpsid_i s) = reg_read IWDG_KR s"
    by (simp add: reg_read_def step_simps)
  have t: "trace (ResetHandler_stage_one b L s) = trace s @ ?evs"
    using assms evs by (simp add: ResetHandler_stage_one_def Let_def step_simps)
  have fl: "filter (writes_to IWDG_KR) ?evs =
       (if reg_read IWDG_KR s \<noteq> 0 then [RegWrite IWDG_KR 0x0000AAAA] else [])"
    using f rd by simp
  have "RegWrite IWDG_KR 0x0000AAAA \<in> set ?evs \<longleftrightarrow>
      RegWrite IWDG_KR 0x0000AAAA \<in> set (filter (writes_to IWDG_KR) ?evs)"
    by simp
  also have "\<dots> \<longleftrightarrow> reg_read IWDG_KR s \<noteq> 0" by (simp only: fl) simp
  finally have "RegWrite IWDG_KR 0x0000AAAA \<in> set ?evs \<longleftrightarrow> reg_read IWDG_KR s \<noteq> 0" .
  with t fl show ?thesis by blast
qed

section \<open>Properties of the boot sequence\<close>

text \<open>
  C1. For every initial flash and RAM contents, after the data-copy step of stage two
  (\<open>boot_memcpy\<close> of \<open>(&_data_end - &_data_start) * 4\<close> bytes from \<open>_data_flash\<close> to
  \<open>_data_start\<close>) every byte of the RAM region from \<open>_data_start\<close> up to \<open>_data_end\<close>
  equals the byte at the same offset of the flash source region starting at
  \<open>_data_flash\<close>, which the copy leaves as it was. The regions are word aligned, the
  end of the RAM region is not below its start, and the flash source does not overlap
  the RAM destination. The run starts at the entry of stage two.
\<close>

theorem stage_two_data_copied:
  assumes "valid_region (data_start L) (data_end L)"
    and "word_aligned (data_flash L)"
    and "regions_disjoint (data_start L) (data_flash L) (data_end L - data_start L)"
  shows "\<exists>s'. stage_two_copy_data L (stage_two_reset_irqs b s) = Some s' \<and>
           (\<forall>a. data_start L \<le> a \<and> a < data_end L \<longrightarrow>
              mem s' a = mem s (data_flash L + (a - data_start L)) \<and>
              mem s' (data_flash L + (a - data_start L)) =
                mem s (data_flash L + (a - data_start L)))"
proof -
  let ?d = "data_start L" and ?f = "data_flash L"
  let ?n = "data_end L - data_start L"
  from region_count[OF assms(1)] have cnt: "ptr_diff (data_end L) ?d * 4 = ?n"
    and dvd: "4 dvd unat ?n" by simp_all
  have le: "?d \<le> data_end L" using assms(1) by (simp add: valid_region_def)
  let ?m' = "\<lambda>a. if in_range ?d ?n a then mem s (?f + (a - ?d)) else mem s a"
  have run: "stage_two_copy_data L (stage_two_reset_irqs b s) =
      Some ((stage_two_reset_irqs b s)\<lparr>mem := ?m'\<rparr>)"
    by (simp add: stage_two_copy_data_def cnt boot_memcpy_result[OF dvd assms(3)]
        stage_two_reset_irqs_mem)
  have "?m' a = mem s (?f + (a - ?d)) \<and> ?m' (?f + (a - ?d)) = mem s (?f + (a - ?d))"
    if "?d \<le> a \<and> a < data_end L" for a
  proof -
    have a: "in_range ?d ?n a" using that by (simp add: in_range_interval[OF le])
    then have "in_range ?f ?n (?f + (a - ?d))" by (simp only: in_range_source)
    from regions_disjoint_in_range[OF assms(3) this]
    have "\<not> in_range ?d ?n (?f + (a - ?d))" .
    with a show ?thesis by simp
  qed
  with run show ?thesis by simp
qed

theorem stage_two_data_copied_witness:
  "valid_region (data_start example_layout) (data_end example_layout) \<and>
   word_aligned (data_flash example_layout) \<and>
   regions_disjoint (data_start example_layout) (data_flash example_layout)
     (data_end example_layout - data_start example_layout) \<and>
   (\<exists>s'. stage_two_copy_data example_layout (stage_two_reset_irqs example_board example_mach)
            = Some s' \<and>
      (\<forall>a. data_start example_layout \<le> a \<and> a < data_end example_layout \<longrightarrow>
         mem s' a = mem example_mach (data_flash example_layout + (a - data_start example_layout)) \<and>
         mem s' (data_flash example_layout + (a - data_start example_layout)) =
           mem example_mach (data_flash example_layout + (a - data_start example_layout))))"
proof -
  have h1: "valid_region (data_start example_layout) (data_end example_layout)"
    by (simp add: example_layout_def valid_region_def word_aligned_def)
  have h2: "word_aligned (data_flash example_layout)"
    by (simp add: example_layout_def word_aligned_def)
  have h3: "regions_disjoint (data_start example_layout) (data_flash example_layout)
     (data_end example_layout - data_start example_layout)"
    by (simp add: example_layout_def regions_disjoint_def)
  show ?thesis
    using h1 h2 h3 stage_two_data_copied[OF h1 h2 h3, of example_board example_mach]
    by simp
qed

text \<open>
  C2. For every prior memory contents, after the bss-clear step of stage two
  (\<open>boot_memset\<close> of \<open>(&_bss_end - &_bss_start) * 4\<close> bytes at \<open>_bss_start\<close> with value
  0) every byte of the bss region from \<open>_bss_start\<close> up to \<open>_bss_end\<close> is zero. The
  region is word aligned and its end is not below its start.
\<close>

theorem stage_two_bss_cleared:
  assumes "valid_region (bss_start L) (bss_end L)"
  shows "\<exists>s'. stage_two_clear_bss L s = Some s' \<and>
           (\<forall>a. bss_start L \<le> a \<and> a < bss_end L \<longrightarrow> mem s' a = 0)"
proof -
  let ?n = "bss_end L - bss_start L"
  from region_count[OF assms] have cnt: "ptr_diff (bss_end L) (bss_start L) * 4 = ?n"
    and dvd: "4 dvd unat ?n" by simp_all
  have le: "bss_start L \<le> bss_end L" using assms by (simp add: valid_region_def)
  let ?m' = "\<lambda>a. if in_range (bss_start L) ?n a
                 then byte_of 0 (unat (a - bss_start L) mod 4) else mem s a"
  have run: "stage_two_clear_bss L s = Some (s\<lparr>mem := ?m'\<rparr>)"
    by (simp add: stage_two_clear_bss_def cnt boot_memset_result[OF dvd])
  have "\<forall>a. bss_start L \<le> a \<and> a < bss_end L \<longrightarrow> ?m' a = 0"
    by (simp add: in_range_interval[OF le] byte_of_zero)
  with run show ?thesis by simp
qed

theorem stage_two_bss_cleared_witness:
  "valid_region (bss_start example_layout) (bss_end example_layout) \<and>
   (\<exists>s'. stage_two_clear_bss example_layout example_mach = Some s' \<and>
      (\<forall>a. bss_start example_layout \<le> a \<and> a < bss_end example_layout \<longrightarrow> mem s' a = 0))"
proof -
  have h: "valid_region (bss_start example_layout) (bss_end example_layout)"
    by (simp add: example_layout_def valid_region_def word_aligned_def)
  show ?thesis
    using h stage_two_bss_cleared[OF h, of example_mach] by simp
qed

text \<open>
  C3. For every value of the stack pointer at entry to \<open>ResetHandler\<close>, the stack
  pointer with which stage two is entered is the linker's top of stack \<open>_stack_end\<close>;
  the last two instructions of stage one load the stack pointer and branch to stage
  two, and \<open>ResetHandler\<close> never returns to its caller, whatever the application entry
  does.
\<close>

theorem stage_one_sets_stack_pointer:
  "sp (ResetHandler_stage_one b L s) = stack_end L \<and>
   (\<exists>evs. trace (ResetHandler_stage_one b L s) =
      trace s @ evs @ [MovSP (stack_end L), BranchStageTwo]) \<and>
   ResetHandler b L armcm_main s = None"
proof -
  have "sp (ResetHandler_stage_one b L s) = stack_end L"
    by (simp add: ResetHandler_stage_one_def Let_def step_simps)
  moreover have "\<exists>evs. trace (ResetHandler_stage_one b L s) =
      trace s @ evs @ [MovSP (stack_end L), BranchStageTwo]"
  proof (cases "CONFIG_ARMCM_RAM_VECTORTABLE b")
    case True
    obtain evs where "trace (ram_vectortable_setup b L (cpsid_i s)) = trace (cpsid_i s) @ evs"
      using ram_vectortable_setup_trace[of b L "cpsid_i s"] by blast
    then show ?thesis
      using True by (simp add: ResetHandler_stage_one_def Let_def step_simps)
  next
    case False
    then show ?thesis
      by (simp add: ResetHandler_stage_one_def Let_def step_simps)
  qed
  moreover have "ResetHandler b L armcm_main s = None"
    by (simp add: ResetHandler_def reset_handler_stage_two_None)
  ultimately show ?thesis by simp
qed

text \<open>
  C4. In stage two, for every register group \<open>i\<close> of the interrupt controller, the code
  writes all-ones to the clear-enable register \<open>ICER[i]\<close>, then issues a data
  synchronization barrier, then writes all-ones to the clear-pending register
  \<open>ICPR[i]\<close>: the trace of stage two starts with these three events for each group in
  turn, and what follows writes to no clear-enable or clear-pending register.
\<close>

theorem nvic_clear_enable_before_clear_pending:
  "\<exists>rest. trace (stage_two_reset_irqs b s) =
      trace s
      @ concat (map (\<lambda>i. [RegWrite (NVIC_ICER i) 0xFFFFFFFF, DSB,
                           RegWrite (NVIC_ICPR i) 0xFFFFFFFF]) [0..<NVIC_ICER_size b])
      @ rest
    \<and> (\<forall>i v. RegWrite (NVIC_ICER i) v \<notin> set rest \<and> RegWrite (NVIC_ICPR i) v \<notin> set rest)"
  using stage_two_reset_irqs_trace[of b s] stage_two_later_events_no_nvic[of _ _ b]
  by (intro exI[of _ "stage_two_later_events b"]) simp

text \<open>
  C5. With \<open>CONFIG_ARMCM_RAM_VECTORTABLE\<close>, when stage one hands over to stage two every
  byte of the RAM vector table starting at \<open>_ram_vectortable_start\<close> equals the byte at
  the same offset of the flash table from \<open>_text_vectortable_start\<close> up to
  \<open>_text_vectortable_end\<close>, for exactly
  \<open>(&_text_vectortable_end - &_text_vectortable_start) * 4\<close> bytes (the flash table and
  every byte outside the RAM table are as they were), and the bits \<open>MEM_MODE_0\<close> and
  \<open>MEM_MODE_1\<close> of \<open>SYSCFG->CFGR1\<close> are both set. The flash table is word aligned, its
  end is not below its start, and it does not overlap the RAM table.
\<close>

theorem ram_vectortable_relocated:
  assumes "CONFIG_ARMCM_RAM_VECTORTABLE b"
    and "valid_region (text_vectortable_start L) (text_vectortable_end L)"
    and "regions_disjoint (ram_vectortable_start L) (text_vectortable_start L)
           (text_vectortable_end L - text_vectortable_start L)"
  shows "(\<forall>a. in_range (ram_vectortable_start L)
                 (text_vectortable_end L - text_vectortable_start L) a \<longrightarrow>
            mem (ResetHandler_stage_one b L s) a =
              mem s (text_vectortable_start L + (a - ram_vectortable_start L)) \<and>
            mem (ResetHandler_stage_one b L s)
                (text_vectortable_start L + (a - ram_vectortable_start L)) =
              mem s (text_vectortable_start L + (a - ram_vectortable_start L))) \<and>
         (\<forall>a. \<not> in_range (ram_vectortable_start L)
                 (text_vectortable_end L - text_vectortable_start L) a \<longrightarrow>
            mem (ResetHandler_stage_one b L s) a = mem s a) \<and>
         regs (ResetHandler_stage_one b L s) SYSCFG_CFGR1 AND SYSCFG_CFGR1_MEM_MODE_0 b =
           SYSCFG_CFGR1_MEM_MODE_0 b \<and>
         regs (ResetHandler_stage_one b L s) SYSCFG_CFGR1 AND SYSCFG_CFGR1_MEM_MODE_1 b =
           SYSCFG_CFGR1_MEM_MODE_1 b"
proof -
  let ?r = "ram_vectortable_start L" and ?t = "text_vectortable_start L"
  let ?n = "text_vectortable_end L - text_vectortable_start L"
  let ?s' = "ResetHandler_stage_one b L s"
  from region_count[OF assms(2)] have cnt: "ptr_diff (text_vectortable_end L) ?t * 4 = ?n"
    by simp
  have m: "mem ?s' = builtin_memcpy (mem s) ?r ?t ?n"
    using assms(1)
    by (simp add: ResetHandler_stage_one_def Let_def step_simps ram_vectortable_setup_mem cnt)
  have r: "regs ?s' SYSCFG_CFGR1 =
      (regs s SYSCFG_CFGR1 AND NOT (SYSCFG_CFGR1_MEM_MODE_0 b OR SYSCFG_CFGR1_MEM_MODE_1 b))
       OR (SYSCFG_CFGR1_MEM_MODE_0 b OR SYSCFG_CFGR1_MEM_MODE_1 b)"
    using assms(1)
    by (simp add: ResetHandler_stage_one_def Let_def step_simps ram_vectortable_setup_cfgr1)
  have copy: "mem ?s' a = mem s (?t + (a - ?r)) \<and> mem ?s' (?t + (a - ?r)) = mem s (?t + (a - ?r))"
    if a: "in_range ?r ?n a" for a
  proof -
    from a have "in_range ?t ?n (?t + (a - ?r))" by (simp only: in_range_source)
    from regions_disjoint_in_range[OF assms(3) this]
    have "\<not> in_range ?r ?n (?t + (a - ?r))" .
    with a show ?thesis by (simp add: m builtin_memcpy_def)
  qed
  have frame: "mem ?s' a = mem s a" if "\<not> in_range ?r ?n a" for a
    using that by (simp add: m builtin_memcpy_def)
  show ?thesis
    using copy frame by (simp add: r or_mask_and)
qed

theorem ram_vectortable_relocated_witness:
  "CONFIG_ARMCM_RAM_VECTORTABLE example_board \<and>
   valid_region (text_vectortable_start example_layout) (text_vectortable_end example_layout) \<and>
   regions_disjoint (ram_vectortable_start example_layout)
     (text_vectortable_start example_layout)
     (text_vectortable_end example_layout - text_vectortable_start example_layout) \<and>
   mem (ResetHandler_stage_one example_board example_layout example_mach) 0x20000005 =
     mem example_mach 0x08000005 \<and>
   regs (ResetHandler_stage_one example_board example_layout example_mach) SYSCFG_CFGR1 AND 1 = 1 \<and>
   regs (ResetHandler_stage_one example_board example_layout example_mach) SYSCFG_CFGR1 AND 2 = 2"
proof -
  have h1: "CONFIG_ARMCM_RAM_VECTORTABLE example_board" by (simp add: example_board_def)
  have h2: "valid_region (text_vectortable_start example_layout)
      (text_vectortable_end example_layout)"
    by (simp add: example_layout_def valid_region_def word_aligned_def)
  have h3: "regions_disjoint (ram_vectortable_start example_layout)
     (text_vectortable_start example_layout)
     (text_vectortable_end example_layout - text_vectortable_start example_layout)"
    by (simp add: example_layout_def regions_disjoint_def)
  have r: "in_range (ram_vectortable_start example_layout)
     (text_vectortable_end example_layout - text_vectortable_start example_layout) 0x20000005"
    by (simp add: example_layout_def in_range_def)
  have a: "text_vectortable_start example_layout + (0x20000005 - ram_vectortable_start example_layout)
      = 0x08000005"
    by (simp add: example_layout_def)
  have m0: "SYSCFG_CFGR1_MEM_MODE_0 example_board = 1" "SYSCFG_CFGR1_MEM_MODE_1 example_board = 2"
    by (simp_all add: example_board_def)
  from ram_vectortable_relocated[OF h1 h2 h3, of example_mach]
  show ?thesis using h1 h2 h3 r a m0 by (metis (no_types, lifting))
qed

text \<open>
  C7. For every valid linker layout (word-aligned regions, the end of bss not above
  the start of the stack) \<open>dynmem_start\<close> returns the address of the end of the bss
  region, \<open>dynmem_end\<close> returns the address where the stack region begins, neither
  changes the state, and the first result is not above the second.
\<close>

theorem dynmem_range:
  assumes "valid_layout L"
  shows "dynmem_start L s = (bss_end L, s) \<and> dynmem_end L s = (stack_start L, s) \<and>
         fst (dynmem_start L s) \<le> fst (dynmem_end L s)"
  using assms by (simp add: dynmem_start_def dynmem_end_def valid_layout_def)

theorem dynmem_range_witness:
  "valid_layout example_layout \<and>
   dynmem_start example_layout example_mach = (0x20000110, example_mach) \<and>
   dynmem_end example_layout example_mach = (0x20000200, example_mach) \<and>
   fst (dynmem_start example_layout example_mach) \<le> fst (dynmem_end example_layout example_mach)"
proof -
  have h: "valid_layout example_layout"
    by (simp add: valid_layout_def valid_region_def word_aligned_def example_layout_def)
  have e: "bss_end example_layout = 0x20000110" "stack_start example_layout = 0x20000200"
    by (simp_all add: example_layout_def)
  show ?thesis using h e dynmem_range[OF h, of example_mach] by simp
qed

text \<open>
  C8. For every length \<open>n\<close> that is a multiple of 4, \<open>boot_memcpy dest src n\<close> and
  \<open>boot_memset s c n\<close> return and change only the \<open>n\<close> destination bytes: every
  location outside the destination range is as before, and with it the whole source
  range of \<open>boot_memcpy\<close>, which lies outside the destination (the copy is from flash
  to RAM). For \<open>n = 0\<close> the memory is returned as it was.
\<close>

theorem boot_copy_fill_frame:
  assumes "4 dvd unat n"
  shows "(\<exists>m'. boot_memset m s c n = Some m' \<and> (\<forall>a. \<not> in_range s n a \<longrightarrow> m' a = m a)) \<and>
         (\<exists>m'. boot_memcpy m dest src n = Some m' \<and>
            (\<forall>a. \<not> in_range dest n a \<longrightarrow> m' a = m a) \<and>
            (regions_disjoint dest src n \<longrightarrow> (\<forall>a. in_range src n a \<longrightarrow> m' a = m a))) \<and>
         boot_memset m s c 0 = Some m \<and> boot_memcpy m dest src 0 = Some m"
proof -
  have "\<exists>m'. boot_memset m s c n = Some m' \<and> (\<forall>a. \<not> in_range s n a \<longrightarrow> m' a = m a)"
    by (simp add: boot_memset_result[OF assms])
  moreover have "\<exists>m'. boot_memcpy m dest src n = Some m' \<and>
            (\<forall>a. \<not> in_range dest n a \<longrightarrow> m' a = m a) \<and>
            (regions_disjoint dest src n \<longrightarrow> (\<forall>a. in_range src n a \<longrightarrow> m' a = m a))"
  proof -
    obtain m' where m': "boot_memcpy m dest src n = Some m'"
      "\<forall>a. \<not> in_range dest n a \<longrightarrow> m' a = m a"
      using boot_memcpy_frame[OF assms, of m dest src] by auto
    have "\<forall>a. in_range src n a \<longrightarrow> m' a = m a" if "regions_disjoint dest src n"
      using regions_disjoint_in_range[OF that] m'(2) by blast
    with m' show ?thesis by blast
  qed
  ultimately show ?thesis
    by (simp add: boot_memset_zero_len boot_memcpy_zero_len)
qed

theorem boot_copy_fill_frame_witness:
  "4 dvd unat (8 :: u32) \<and> regions_disjoint 0x20000100 0x08001000 8 \<and>
   in_range 0x08001000 8 0x08001004 \<and> \<not> in_range 0x20000100 8 0x20000108 \<and>
   (\<exists>m'. boot_memset (mem example_mach) 0x20000100 7 8 = Some m' \<and>
      m' 0x20000108 = mem example_mach 0x20000108) \<and>
   (\<exists>m'. boot_memcpy (mem example_mach) 0x20000100 0x08001000 8 = Some m' \<and>
      m' 0x20000108 = mem example_mach 0x20000108 \<and>
      m' 0x08001004 = mem example_mach 0x08001004)"
proof -
  have h: "4 dvd unat (8 :: u32)" by simp
  have d: "regions_disjoint 0x20000100 0x08001000 8" by (simp add: regions_disjoint_def)
  have r: "in_range 0x08001000 8 0x08001004" "\<not> in_range 0x20000100 8 0x20000108"
    by (simp_all add: in_range_def)
  from boot_copy_fill_frame[OF h, of "mem example_mach" "0x20000100" 7 "0x20000100" "0x08001000"]
  show ?thesis using h d r by (metis (no_types, lifting))
qed

text \<open>
  C9. \<open>boot_memset s c n\<close> stores the fill value \<open>c\<close> as one whole 32-bit word into each
  of the \<open>n / 4\<close> destination words. Its result agrees with the byte-wise fill of
  standard \<open>memset\<close> exactly when all four bytes of the 32-bit representation of \<open>c\<close>
  are equal: for such a \<open>c\<close> it agrees for every destination and every length that is a
  multiple of 4, and for any other \<open>c\<close> it differs for every such length above 0.
\<close>

theorem boot_memset_word_fill:
  "(4 dvd unat n \<longrightarrow>
      (\<exists>m'. boot_memset m s c n = Some m' \<and>
         (\<forall>j < unat n div 4. load32 m' (s + of_nat (4 * j)) = c))) \<and>
   ((\<forall>m s n. 4 dvd unat n \<longrightarrow> boot_memset m s c n = Some (memset_bytes m s c n))
      \<longleftrightarrow> all_bytes_equal c) \<and>
   (4 dvd unat n \<and> n \<noteq> 0 \<longrightarrow>
      (boot_memset m s c n = Some (memset_bytes m s c n) \<longleftrightarrow> all_bytes_equal c))"
proof (intro conjI impI)
  assume d: "4 dvd unat n"
  obtain m' where m': "boot_memset m s c n = Some m'"
    by (simp add: boot_memset_result[OF d])
  have "load32 m' (s + of_nat (4 * j)) = c" if "j < unat n div 4" for j
    using boot_memset_words[OF d that, of m s c] m' by simp
  with m' show "\<exists>m'. boot_memset m s c n = Some m' \<and>
         (\<forall>j < unat n div 4. load32 m' (s + of_nat (4 * j)) = c)" by blast
next
  show "(\<forall>m s n. 4 dvd unat n \<longrightarrow> boot_memset m s c n = Some (memset_bytes m s c n))
      \<longleftrightarrow> all_bytes_equal c"
  proof
    assume a: "\<forall>m s n. 4 dvd unat n \<longrightarrow> boot_memset m s c n = Some (memset_bytes m s c n)"
    have "4 dvd unat (4 :: u32)" "(4 :: u32) \<noteq> 0" by simp_all
    moreover from a this(1) have "boot_memset (\<lambda>_. 0) 0 c 4 = Some (memset_bytes (\<lambda>_. 0) 0 c 4)"
      by blast
    ultimately show "all_bytes_equal c" by (rule boot_memset_not_bytewise)
  next
    assume "all_bytes_equal c"
    then show "\<forall>m s n. 4 dvd unat n \<longrightarrow> boot_memset m s c n = Some (memset_bytes m s c n)"
      by (simp add: boot_memset_bytewise)
  qed
next
  assume "4 dvd unat n \<and> n \<noteq> 0"
  then show "boot_memset m s c n = Some (memset_bytes m s c n) \<longleftrightarrow> all_bytes_equal c"
    using boot_memset_not_bytewise[of n m s c] boot_memset_bytewise[of c n m s] by blast
qed

theorem boot_memset_word_fill_witness:
  "4 dvd unat (4 :: u32) \<and> (4 :: u32) \<noteq> 0 \<and> all_bytes_equal 0 \<and> \<not> all_bytes_equal 1 \<and>
   boot_memset (mem example_mach) 0x20000100 0 4 =
     Some (memset_bytes (mem example_mach) 0x20000100 0 4) \<and>
   (\<exists>m'. boot_memset (mem example_mach) 0x20000100 1 4 = Some m' \<and>
      load32 m' 0x20000100 = 0x00000001) \<and>
   load32 (memset_bytes (mem example_mach) 0x20000100 1 4) 0x20000100 = 0x01010101 \<and>
   boot_memset (mem example_mach) 0x20000100 1 4 \<noteq>
     Some (memset_bytes (mem example_mach) 0x20000100 1 4)"
proof -
  have h: "4 dvd unat (4 :: u32)" "(4 :: u32) \<noteq> 0" by simp_all
  have q: "unat (4 :: u32) div 4 = 1" by simp
  have e0: "all_bytes_equal 0" by (simp add: all_bytes_equal_def byte_of_def)
  have e1: "\<not> all_bytes_equal 1" by (simp add: all_bytes_equal_def byte_of_def)
  have l: "load32 (memset_bytes (mem example_mach) 0x20000100 1 4) 0x20000100 = 0x01010101"
    by (simp add: load32_def memset_bytes_def in_range_def)
  from boot_memset_word_fill[of 4 "mem example_mach" "0x20000100" 0]
  have a0: "boot_memset (mem example_mach) 0x20000100 0 4 =
     Some (memset_bytes (mem example_mach) 0x20000100 0 4)"
    using h e0 by blast
  from boot_memset_word_fill[of 4 "mem example_mach" "0x20000100" 1]
  have a1: "\<exists>m'. boot_memset (mem example_mach) 0x20000100 1 4 = Some m' \<and>
         (\<forall>j < 1. load32 m' (0x20000100 + of_nat (4 * j)) = 1)"
    and a2: "boot_memset (mem example_mach) 0x20000100 1 4 \<noteq>
     Some (memset_bytes (mem example_mach) 0x20000100 1 4)"
    using h e1 q by (simp_all only: simp_thms)
  from a1 have a1': "\<exists>m'. boot_memset (mem example_mach) 0x20000100 1 4 = Some m' \<and>
      load32 m' 0x20000100 = 0x00000001" by auto
  show ?thesis using h e0 e1 l a0 a1' a2 by simp
qed

text \<open>
  C10. The loops of \<open>boot_memcpy\<close> and \<open>boot_memset\<close> terminate exactly when the length
  \<open>n\<close> is a multiple of 4. When 4 divides \<open>n\<close> the loop returns the state after exactly
  \<open>n / 4\<close> runs of its body: the loop condition holds before each of them and fails
  after the last. When 4 does not divide \<open>n\<close> the counter, decreased by 4 with
  wrap-around, is non-zero after any number of runs of the body, and the loop does not
  return.
\<close>

theorem boot_loops_terminate_iff:
  "(boot_memset m s c n \<noteq> None \<longleftrightarrow> 4 dvd unat n) \<and>
   (boot_memcpy m dest src n \<noteq> None \<longleftrightarrow> 4 dvd unat n) \<and>
   (4 dvd unat n \<longrightarrow>
      boot_memset_loop c (m, s, n) = Some ((boot_memset_body c ^^ (unat n div 4)) (m, s, n)) \<and>
      (\<forall>j < unat n div 4. boot_memset_cond ((boot_memset_body c ^^ j) (m, s, n))) \<and>
      \<not> boot_memset_cond ((boot_memset_body c ^^ (unat n div 4)) (m, s, n)) \<and>
      boot_memcpy_loop (m, dest, src, n) =
        Some ((boot_memcpy_body ^^ (unat n div 4)) (m, dest, src, n)) \<and>
      (\<forall>j < unat n div 4. boot_memcpy_cond ((boot_memcpy_body ^^ j) (m, dest, src, n))) \<and>
      \<not> boot_memcpy_cond ((boot_memcpy_body ^^ (unat n div 4)) (m, dest, src, n))) \<and>
   (\<not> 4 dvd unat n \<longrightarrow>
      boot_memset_loop c (m, s, n) = None \<and>
      boot_memcpy_loop (m, dest, src, n) = None \<and>
      (\<forall>k. boot_memset_cond ((boot_memset_body c ^^ k) (m, s, n))) \<and>
      (\<forall>k. boot_memcpy_cond ((boot_memcpy_body ^^ k) (m, dest, src, n))))"
proof (cases "4 dvd unat n")
  case True
  then show ?thesis
    using memset_loop_terminates[OF True, where c=c and m=m and p=s]
      memcpy_loop_terminates[OF True, where m=m and d=dest and s=src]
      boot_memset_Some_iff[of m s c n] boot_memcpy_Some_iff[of m dest src n]
    by simp
next
  case False
  then show ?thesis
    using boot_memset_Some_iff[of m s c n] boot_memcpy_Some_iff[of m dest src n]
    by (simp add: memset_loop_diverges memcpy_loop_diverges memset_cond_always
        memcpy_cond_always)
qed

theorem boot_loops_terminate_iff_witness:
  "4 dvd unat (8 :: u32) \<and> \<not> 4 dvd unat (6 :: u32) \<and>
   boot_memset_loop 0 (mem example_mach, 0x20000100, 8) =
     Some ((boot_memset_body 0 ^^ 2) (mem example_mach, 0x20000100, 8)) \<and>
   boot_memcpy_loop (mem example_mach, 0x20000100, 0x08001000, 8) =
     Some ((boot_memcpy_body ^^ 2) (mem example_mach, 0x20000100, 0x08001000, 8)) \<and>
   boot_memset (mem example_mach) 0x20000100 0 6 = None \<and>
   boot_memcpy (mem example_mach) 0x20000100 0x08001000 6 = None"
proof -
  have h8: "4 dvd unat (8 :: u32)" and h6: "\<not> 4 dvd unat (6 :: u32)" by simp_all
  have q: "unat (8 :: u32) div 4 = 2" by simp
  show ?thesis
    using h8 h6 q
      boot_loops_terminate_iff[of "mem example_mach" "0x20000100" 0 8 "0x20000100" "0x08001000"]
      boot_loops_terminate_iff[of "mem example_mach" "0x20000100" 0 6 "0x20000100" "0x08001000"]
    by (metis (no_types, lifting))
qed

end
